theory Spec2Isabelle
  imports Complex_Main "HOL-Library.Sublist" "HOL-Library.List_Lexorder" "HOL-Library.Log_Nat"
begin

section \<open>Strings\<close>

text \<open>
  A Python \<open>str\<close> is a sequence of Unicode code points: \<open>ustr\<close> is the list of
  their numbers, so that \<open>len\<close> is \<open>length\<close> and \<open>set(s)\<close> is \<open>set s\<close>.
  \<open>str\<close> reads an ASCII literal of the source. A \<open>string\<close> of HOL is a list of bytes
  and stands for the content of a file.
\<close>

type_synonym ustr = "nat list"

definition str :: "string \<Rightarrow> ustr" where
  "str s = map of_char s"

text \<open>The exceptions that the modelled code can raise.\<close>

datatype error = OSError | UnicodeDecodeError | OverflowError | ZeroDivisionError

text \<open>\<open>p in s\<close> on strings: \<open>p\<close> occurs in \<open>s\<close> as a contiguous run.\<close>

fun contains :: "ustr \<Rightarrow> ustr \<Rightarrow> bool" where
  "contains p [] = (p = [])"
| "contains p (c # cs) = (prefix p (c # cs) \<or> contains p cs)"

text \<open>
  \<open>str.lower()\<close> follows the Unicode case tables, which are no part of the source: the
  functions below take it as the parameter \<open>lower\<close>, and \<open>lower_ascii\<close> is what it does
  on ASCII strings, character by character.
\<close>

definition lower_ascii :: "ustr \<Rightarrow> ustr" where
  "lower_ascii s = map (\<lambda>c. if 65 \<le> c \<and> c \<le> 90 then c + 32 else c) s"







text \<open>
  \<open>str.isspace\<close> of one character: the code points that \<open>strip\<close>, \<open>lstrip\<close> and
  \<open>rstrip\<close> remove when called without an argument.
\<close>

definition isspace :: "nat \<Rightarrow> bool" where
  "isspace c = ((9 \<le> c \<and> c \<le> 13) \<or> (28 \<le> c \<and> c \<le> 32) \<or> c = 0x85 \<or> c = 0xA0
      \<or> c = 0x1680 \<or> (0x2000 \<le> c \<and> c \<le> 0x200A) \<or> c = 0x2028 \<or> c = 0x2029
      \<or> c = 0x202F \<or> c = 0x205F \<or> c = 0x3000)"

definition lstrip :: "ustr \<Rightarrow> ustr" where
  "lstrip s = dropWhile isspace s"

definition rstrip :: "ustr \<Rightarrow> ustr" where
  "rstrip s = rev (dropWhile isspace (rev s))"

definition strip :: "ustr \<Rightarrow> ustr" where
  "strip s = rstrip (lstrip s)"

text \<open>\<open>raw.rstrip('\n')\<close>, \<open>line.startswith('>')\<close> and \<open>'\n'.join(cur)\<close>.\<close>

definition rstrip_nl :: "ustr \<Rightarrow> ustr" where
  "rstrip_nl s = rev (dropWhile (\<lambda>c. c = 10) (rev s))"

definition startswith_gt :: "ustr \<Rightarrow> bool" where
  "startswith_gt s = (case s of [] \<Rightarrow> False | c # _ \<Rightarrow> c = 62)"

fun join_nl :: "ustr list \<Rightarrow> ustr" where
  "join_nl [] = []"
| "join_nl [l] = l"
| "join_nl (l # m # ls) = l @ 10 # join_nl (m # ls)"

text \<open>
  Decimal digits of a non-negative integer, and \<open>str(n)\<close> of a count.
\<close>

function dec :: "int \<Rightarrow> ustr" where
  "dec n = (if n < 10 then [nat (48 + n)] else dec (n div 10) @ [nat (48 + n mod 10)])"
  by pat_completeness auto
termination
  by (relation "measure nat") auto

declare dec.simps [simp del]

definition pyint :: "nat \<Rightarrow> ustr" where
  "pyint n = dec (int n)"

text \<open>
  The format specification \<open>{n:0wd}\<close>: the sign, then zeros up to the width \<open>w\<close>, then
  the digits. A number with more digits than \<open>w\<close> is written in full.
\<close>

definition fmt_d :: "nat \<Rightarrow> int \<Rightarrow> ustr" where
  "fmt_d width n =
     (let digits = dec \<bar>n\<bar>;
          sign = (if n < 0 then str ''-'' else [])
      in sign @ replicate (width - (length sign + length digits)) 48 @ digits)"

text \<open>The last \<open>k\<close> decimal digits of a number: a field of fixed width.\<close>

fun digits_w :: "nat \<Rightarrow> int \<Rightarrow> ustr" where
  "digits_w 0 n = []"
| "digits_w (Suc k) n = digits_w k (n div 10) @ [nat (48 + n mod 10)]"

section \<open>Reading the manual file\<close>

text \<open>
  The file system as the code sees it: \<open>rfile fs p\<close> is the content of the file that
  \<open>open(p, 'r')\<close> opens, \<open>None\<close> when the call raises \<open>OSError\<close> (no such file, no
  permission); \<open>wfile fs p\<close> tells whether \<open>open(p, 'w')\<close> succeeds.
\<close>

record fsys =
  rfile :: "ustr \<Rightarrow> string option"
  wfile :: "ustr \<Rightarrow> bool"

text \<open>
  The codec of \<open>encoding='utf-8'\<close>, errors strict: \<open>None\<close> is \<open>UnicodeDecodeError\<close>.
  Overlong forms, surrogates and code points above 0x10FFFF are refused.
\<close>

definition cont :: "nat \<Rightarrow> bool" where
  "cont b = (0x80 \<le> b \<and> b \<le> 0xBF)"

fun utf8_decode :: "nat list \<Rightarrow> ustr option" where
  "utf8_decode [] = Some []"
| "utf8_decode (b0 # bs) =
     (if b0 < 0x80 then map_option ((#) b0) (utf8_decode bs)
      else if 0xC2 \<le> b0 \<and> b0 \<le> 0xDF then
        (case bs of
           b1 # r \<Rightarrow>
             if cont b1
             then map_option ((#) ((b0 - 0xC0) * 64 + (b1 - 0x80))) (utf8_decode r)
             else None
         | _ \<Rightarrow> None)
      else if 0xE0 \<le> b0 \<and> b0 \<le> 0xEF then
        (case bs of
           b1 # b2 # r \<Rightarrow>
             if cont b1 \<and> cont b2 \<and> (if b0 = 0xE0 then 0xA0 \<le> b1 else True)
                \<and> (if b0 = 0xED then b1 \<le> 0x9F else True)
             then map_option
                    ((#) ((b0 - 0xE0) * 4096 + (b1 - 0x80) * 64 + (b2 - 0x80)))
                    (utf8_decode r)
             else None
         | _ \<Rightarrow> None)
      else if 0xF0 \<le> b0 \<and> b0 \<le> 0xF4 then
        (case bs of
           b1 # b2 # b3 # r \<Rightarrow>
             if cont b1 \<and> cont b2 \<and> cont b3 \<and> (if b0 = 0xF0 then 0x90 \<le> b1 else True)
                \<and> (if b0 = 0xF4 then b1 \<le> 0x8F else True)
             then map_option
                    ((#) ((b0 - 0xF0) * 262144 + (b1 - 0x80) * 4096 + (b2 - 0x80) * 64
                          + (b3 - 0x80)))
                    (utf8_decode r)
             else None
         | _ \<Rightarrow> None)
      else None)"

text \<open>
  A file opened in text mode translates \<open>'\r\n'\<close> and \<open>'\r'\<close> to \<open>'\n'\<close>, and
  \<open>for raw in f\<close> yields the lines, each with its \<open>'\n'\<close>, the last one possibly
  without.
\<close>

fun universal_newlines :: "ustr \<Rightarrow> ustr" where
  "universal_newlines [] = []"
| "universal_newlines [c] = [if c = 13 then 10 else c]"
| "universal_newlines (c # d # cs) =
     (if c = 13 \<and> d = 10 then 10 # universal_newlines cs
      else if c = 13 then 10 # universal_newlines (d # cs)
      else c # universal_newlines (d # cs))"

fun readlines :: "ustr \<Rightarrow> ustr \<Rightarrow> ustr list" where
  "readlines cur [] = (if cur = [] then [] else [cur])"
| "readlines cur (c # cs) =
     (if c = 10 then (cur @ [c]) # readlines [] cs else readlines (cur @ [c]) cs)"

text \<open>
  The body of the loop of \<open>parse_manual\<close>, on the state \<open>(blocks, cur)\<close>: a line that
  starts with \<open>'>'\<close> flushes the open block and opens a new one, any other line is
  appended to the open block or dropped when there is none.
\<close>

definition parse_step :: "ustr list \<times> ustr list \<Rightarrow> ustr \<Rightarrow> ustr list \<times> ustr list" where
  "parse_step st raw =
     (let blocks = fst st; cur = snd st; line = rstrip_nl raw
      in if startswith_gt line then
           (let flushed = (if cur \<noteq> [] then (blocks @ [strip (join_nl cur)], [])
                           else (blocks, cur))
            in (fst flushed, snd flushed @ [lstrip (tl line)]))
         else if cur \<noteq> [] then (blocks, cur @ [line])
         else (blocks, cur))"

text \<open>The loop, the flush after it, and \<open>[b for b in blocks if b]\<close>.\<close>

definition parse_lines :: "ustr list \<Rightarrow> ustr list" where
  "parse_lines raws =
     (let st = foldl parse_step ([], []) raws;
          blocks = (if snd st \<noteq> [] then fst st @ [strip (join_nl (snd st))] else fst st)
      in filter (\<lambda>b. b \<noteq> []) blocks)"

text \<open>\<open>parse_manual(path)\<close>; \<open>path\<close> may be \<open>None\<close> or empty.\<close>

definition parse_manual :: "ustr option \<Rightarrow> fsys \<Rightarrow> error + ustr list" where
  "parse_manual path fs =
     (case path of
        None \<Rightarrow> Inr []
      | Some p \<Rightarrow>
          if p = [] then Inr []
          else (case rfile fs p of
                  None \<Rightarrow> Inl OSError
                | Some bytes \<Rightarrow>
                    (case utf8_decode (map of_char bytes) of
                       None \<Rightarrow> Inl UnicodeDecodeError
                     | Some text \<Rightarrow>
                         Inr (parse_lines (readlines [] (universal_newlines text))))))"

text \<open>
  The parser as the specification words it. \<open>split_sections\<close> cuts the lines at the
  delimiter lines: the lines before the first delimiter line, then one section per
  delimiter line, the line itself and the lines up to the next one. A section's block
  is its first line without the delimiter and the whitespace after it, joined with the
  following lines, and stripped as a whole; empty blocks are dropped.
\<close>

definition is_delimiter :: "ustr \<Rightarrow> bool" where
  "is_delimiter raw = startswith_gt (rstrip_nl raw)"

fun split_sections :: "ustr list \<Rightarrow> ustr list \<times> ustr list list" where
  "split_sections [] = ([], [])"
| "split_sections (raw # raws) =
     (let rest = split_sections raws
      in if is_delimiter raw then ([], (raw # fst rest) # snd rest)
         else (raw # fst rest, snd rest))"

definition block_text :: "ustr list \<Rightarrow> ustr" where
  "block_text section =
     (case section of
        [] \<Rightarrow> []
      | raw # raws \<Rightarrow> strip (join_nl (lstrip (tl (rstrip_nl raw)) # map rstrip_nl raws)))"

definition blocks_spec :: "ustr list \<Rightarrow> ustr list" where
  "blocks_spec raws = filter (\<lambda>b. b \<noteq> []) (map block_text (snd (split_sections raws)))"

text \<open>What \<open>parse_manual\<close> returns from a state of its loop: the flush and the filter.\<close>

definition finish :: "ustr list \<times> ustr list \<Rightarrow> ustr list" where
  "finish st =
     filter (\<lambda>b. b \<noteq> [])
       (if snd st \<noteq> [] then fst st @ [strip (join_nl (snd st))] else fst st)"

section \<open>The ignore heuristic\<close>

text \<open>
  \<open>DEFAULT_IGNORE_NAMES\<close>: four katakana names (colour dip, cross dissolve, dissolve,
  dip) and four English ones.
\<close>

definition DEFAULT_IGNORE_NAMES :: "ustr list" where
  "DEFAULT_IGNORE_NAMES =
    [[0x30AB, 0x30E9, 0x30FC, 0x30C7, 0x30A3, 0x30C3, 0x30D7],
     [0x30AF, 0x30ED, 0x30B9, 0x30C7, 0x30A3, 0x30BE, 0x30EB, 0x30D6],
     [0x30C7, 0x30A3, 0x30BE, 0x30EB, 0x30D6],
     [0x30C7, 0x30A3, 0x30C3, 0x30D7],
     str ''Transition'', str ''Dip'', str ''Dissolve'', str ''Cross Dissolve'']"

text \<open>
  A Python \<open>float\<close> is a double; the model carries the rational number it denotes.
  The literal \<open>0.6\<close> denotes the double nearest to 6/10.
\<close>

definition float_0_6 :: rat where
  "float_0_6 = 5404319552844595 / 9007199254740992"

text \<open>The loop \<open>for p in patterns: if p and p in lname: return True\<close>.\<close>

fun pattern_hit :: "ustr list \<Rightarrow> ustr \<Rightarrow> bool" where
  "pattern_hit [] lname = False"
| "pattern_hit (p # ps) lname =
     (if p \<noteq> [] \<and> contains p lname then True else pattern_hit ps lname)"

definition patterns_of :: "(ustr \<Rightarrow> ustr) \<Rightarrow> ustr list \<Rightarrow> ustr list" where
  "patterns_of lower extra = map lower DEFAULT_IGNORE_NAMES @ map lower extra"

text \<open>\<open>_should_ignore(name, duration, ignore_effects, extra)\<close>.\<close>

definition should_ignore ::
  "(ustr \<Rightarrow> ustr) \<Rightarrow> ustr \<Rightarrow> rat \<Rightarrow> bool \<Rightarrow> ustr list \<Rightarrow> bool" where
  "should_ignore lower name duration ignore_effects extra =
     (if \<not> ignore_effects then False
      else let lname = lower name;
               patterns = patterns_of lower extra
           in if pattern_hit patterns lname then True
              else if duration \<le> float_0_6 then
                     (if card (set lname) < 6 then True else False)
                   else False)"

section \<open>Floating point and the time formatter\<close>

text \<open>
  The arithmetic of doubles, on the rationals they denote. \<open>rhe\<close> rounds to the nearest
  integer, a tie to the even one (Python's \<open>round\<close>); \<open>trunc\<close> is \<open>int(x)\<close>.
  \<open>ilog2 x\<close> is the binary exponent of a positive \<open>x\<close>, \<open>bexp x\<close> the exponent of
  the double format at \<open>x\<close> (never below -1022, where the subnormal doubles begin),
  \<open>ulp x\<close> the distance between the doubles around \<open>x\<close> (52 fraction bits), and
  \<open>rd x\<close> the double nearest to \<open>x\<close>, a tie to the even one: the result of every
  arithmetic operation is the \<open>rd\<close> of the exact one. Results beyond the largest double
  (the infinities) are outside the model; inside \<open>_fmt_time\<close> none arises, because
  \<open>timedelta\<close> refuses such times first.
\<close>

definition rhe :: "rat \<Rightarrow> int" where
  "rhe x = (let f = \<lfloor>x\<rfloor>; r = x - of_int f
            in if r < 1 / 2 then f
               else if 1 / 2 < r then f + 1
               else if even f then f else f + 1)"

definition trunc :: "rat \<Rightarrow> int" where
  "trunc x = (if 0 \<le> x then \<lfloor>x\<rfloor> else \<lceil>x\<rceil>)"

definition ilog2 :: "rat \<Rightarrow> int" where
  "ilog2 x = (if 1 \<le> x then bitlen \<lfloor>x\<rfloor> - 1 else - bitlen (\<lceil>1 / x\<rceil> - 1))"

definition bexp :: "rat \<Rightarrow> int" where
  "bexp x = max (ilog2 \<bar>x\<bar>) (- 1022)"

definition ulp :: "rat \<Rightarrow> rat" where
  "ulp x = 2 powi (bexp x - 52)"

definition rd :: "rat \<Rightarrow> rat" where
  "rd x = (if x = 0 then 0 else of_int (rhe (x / ulp x)) * ulp x)"

text \<open>
  \<open>timedelta(seconds=sec)\<close>, as the number of microseconds it holds. The constructor
  splits the float into its whole seconds and its fraction, multiplies the fraction by
  \<open>1e6\<close> in floating point and rounds the product to a whole number of microseconds,
  a tie to the even one; it raises \<open>OverflowError\<close> when the days exceed 999999999 in
  magnitude.
\<close>

definition microseconds :: "rat \<Rightarrow> int" where
  "microseconds seconds =
     (let whole = trunc seconds;
          secondsfrac = seconds - of_int whole;
          usdouble = rd (secondsfrac * 1000000)
      in whole * 1000000 + rhe usdouble)"

definition timedelta :: "rat \<Rightarrow> error + int" where
  "timedelta seconds =
     (let us = microseconds seconds;
          days = us div (86400 * 1000000)
      in if 999999999 < \<bar>days\<bar> then Inl OverflowError else Inr us)"

text \<open>
  \<open>td.total_seconds()\<close> divides the microseconds by \<open>10**6\<close>, correctly rounded, and
  \<open>total_ms = int(td.total_seconds() * 1000)\<close>.
\<close>

definition total_seconds :: "int \<Rightarrow> rat" where
  "total_seconds us = rd (of_int us / 1000000)"

definition total_ms_of :: "int \<Rightarrow> int" where
  "total_ms_of us = trunc (rd (total_seconds us * 1000))"

text \<open>The fields of the timecode, from \<open>total_ms\<close>.\<close>

definition fmt_ms :: "int \<Rightarrow> ustr" where
  "fmt_ms total_ms =
     (let h = total_ms div 3600000;
          m = (total_ms div 60000) mod 60;
          s = (total_ms div 1000) mod 60;
          ms = total_ms mod 1000
      in fmt_d 2 h @ str '':'' @ fmt_d 2 m @ str '':'' @ fmt_d 2 s @ str '','' @ fmt_d 3 ms)"

text \<open>\<open>_fmt_time(sec)\<close>.\<close>

definition fmt_time :: "rat \<Rightarrow> error + ustr" where
  "fmt_time sec =
     (case timedelta sec of
        Inl e \<Rightarrow> Inl e
      | Inr us \<Rightarrow> Inr (fmt_ms (total_ms_of us)))"

text \<open>The seconds values that \<open>timedelta\<close> accepts.\<close>

definition timedelta_ok :: "rat \<Rightarrow> bool" where
  "timedelta_ok sec = (case timedelta sec of Inl e \<Rightarrow> False | Inr us \<Rightarrow> True)"

text \<open>
  The timecode that the specification describes: the fields of
  \<open>floor(seconds * 1000)\<close>.
\<close>

definition fmt_floor_spec :: "rat \<Rightarrow> ustr" where
  "fmt_floor_spec sec = fmt_ms \<lfloor>sec * 1000\<rfloor>"

section \<open>The timeline\<close>

text \<open>
  The host's scripting interface, as far as the code calls it. A call that the code
  wraps in \<open>try\<close> / \<open>except\<close> either raises or returns; the other calls return.
  \<open>GetStart\<close> and \<open>GetEnd\<close> are frame numbers, \<open>timelineFrameRate\<close> is the value of
  \<open>float(timeline.GetSetting('timelineFrameRate'))\<close>. The global \<open>timeline\<close> is
  \<open>None\<close> when no timeline is open.
\<close>

datatype 'a api = Raises | Returns 'a

record tool =
  GetInput_StyledText :: "ustr option api"
  GetData_StyledText :: "ustr option api"

record comp =
  FindToolByID :: "ustr \<Rightarrow> tool option api"

record item =
  GetStart :: int
  GetEnd :: int
  GetName :: "ustr option api"
  GetFusionCompByIndex :: "int \<Rightarrow> comp option api"

record track =
  GetTrackName :: ustr
  GetItemListInTrack :: "item list option"

record timeline =
  video_tracks :: "track list"
  timelineFrameRate :: rat

text \<open>
  \<open>it.GetStart() / fps\<close>: the integer becomes a float, the quotient is rounded, and a
  zero divisor raises \<open>ZeroDivisionError\<close>. \<open>end - start\<close> is rounded too.
\<close>

definition int_to_float :: "int \<Rightarrow> rat" where
  "int_to_float n = rd (of_int n)"

definition truediv :: "int \<Rightarrow> rat \<Rightarrow> error + rat" where
  "truediv a b = (if b = 0 then Inl ZeroDivisionError else Inr (rd (int_to_float a / b)))"

definition fsub :: "rat \<Rightarrow> rat \<Rightarrow> rat" where
  "fsub a b = rd (a - b)"

text \<open>
  \<open>it.GetFusionCompByIndex(1)\<close> and \<open>it.GetName() or ''\<close> inside their \<open>try\<close> blocks,
  and the test \<open>if fusion_comp\<close>.
\<close>

definition fusion_comp_of :: "item \<Rightarrow> comp option" where
  "fusion_comp_of it = (case GetFusionCompByIndex it 1 of Raises \<Rightarrow> None | Returns c \<Rightarrow> c)"

definition has_fusion_comp :: "item \<Rightarrow> bool" where
  "has_fusion_comp it = (fusion_comp_of it \<noteq> None)"

definition name_of :: "item \<Rightarrow> ustr" where
  "name_of it =
     (case GetName it of
        Raises \<Rightarrow> []
      | Returns None \<Rightarrow> []
      | Returns (Some n) \<Rightarrow> n)"

text \<open>
  The dictionaries that the collectors build: \<open>clip\<close> has the keys of \<open>collect_clips\<close>,
  \<open>kept_clip\<close> adds \<open>dur\<close>, \<open>ignored_clip\<close> adds \<open>reason\<close>.
\<close>

record clip =
  c_item :: item
  c_start :: rat
  c_end :: rat
  c_name :: ustr

record kept_clip = clip +
  c_dur :: rat

datatype reason = text_plus_reason | effect_reason

record ignored_clip = kept_clip +
  c_reason :: reason

text \<open>The start, the end and the duration of an item, in seconds.\<close>

definition times_of :: "rat \<Rightarrow> item \<Rightarrow> error + rat \<times> rat \<times> rat" where
  "times_of fps it =
     (case truediv (GetStart it) fps of
        Inl e \<Rightarrow> Inl e
      | Inr start \<Rightarrow>
          (case truediv (GetEnd it) fps of
             Inl e \<Rightarrow> Inl e
           | Inr end' \<Rightarrow> Inr (start, end', fsub end' start)))"

section \<open>Collecting the clips\<close>

text \<open>
  \<open>collect_clips\<close>: the loop over the items of a track, the loop over the tracks of the
  given name, and the function. \<open>res\<close> is the list built so far.
\<close>

fun collect_items ::
  "(ustr \<Rightarrow> ustr) \<Rightarrow> rat \<Rightarrow> bool \<Rightarrow> bool \<Rightarrow> ustr list \<Rightarrow> item list \<Rightarrow> clip list
     \<Rightarrow> error + clip list" where
  "collect_items lower fps exclude_text_plus ignore_effects extra_ignore [] res = Inr res"
| "collect_items lower fps exclude_text_plus ignore_effects extra_ignore (it # items) res =
     (if exclude_text_plus \<and> has_fusion_comp it
      then collect_items lower fps exclude_text_plus ignore_effects extra_ignore items res
      else
        (case times_of fps it of
           Inl e \<Rightarrow> Inl e
         | Inr (start, end', dur) \<Rightarrow>
             if should_ignore lower (name_of it) dur ignore_effects extra_ignore
             then collect_items lower fps exclude_text_plus ignore_effects extra_ignore
                    items res
             else collect_items lower fps exclude_text_plus ignore_effects extra_ignore
                    items
                    (res @ [\<lparr>c_item = it, c_start = start, c_end = end',
                              c_name = name_of it\<rparr>])))"

definition items_or_empty :: "track \<Rightarrow> item list" where
  "items_or_empty tr = (case GetItemListInTrack tr of None \<Rightarrow> [] | Some items \<Rightarrow> items)"

fun collect_tracks ::
  "(ustr \<Rightarrow> ustr) \<Rightarrow> rat \<Rightarrow> ustr \<Rightarrow> bool \<Rightarrow> bool \<Rightarrow> ustr list \<Rightarrow> track list \<Rightarrow> clip list
     \<Rightarrow> error + clip list" where
  "collect_tracks lower fps track_name exclude_text_plus ignore_effects extra_ignore [] res =
     Inr res"
| "collect_tracks lower fps track_name exclude_text_plus ignore_effects extra_ignore (tr # trs)
     res =
     (if GetTrackName tr \<noteq> track_name
      then collect_tracks lower fps track_name exclude_text_plus ignore_effects extra_ignore
             trs res
      else
        (case collect_items lower fps exclude_text_plus ignore_effects extra_ignore
                (items_or_empty tr) res of
           Inl e \<Rightarrow> Inl e
         | Inr res' \<Rightarrow>
             collect_tracks lower fps track_name exclude_text_plus ignore_effects
               extra_ignore trs res'))"

definition collect_clips ::
  "(ustr \<Rightarrow> ustr) \<Rightarrow> timeline option \<Rightarrow> ustr \<Rightarrow> bool \<Rightarrow> bool \<Rightarrow> ustr list option
     \<Rightarrow> error + clip list" where
  "collect_clips lower timeline track_name exclude_text_plus ignore_effects extra_ignore =
     (case timeline of
        None \<Rightarrow> Inr []
      | Some t \<Rightarrow>
          collect_tracks lower (timelineFrameRate t) track_name exclude_text_plus
            ignore_effects (case extra_ignore of None \<Rightarrow> [] | Some e \<Rightarrow> e)
            (video_tracks t) [])"

text \<open>\<open>collect_clips_with_ignored\<close>, which also lists what it leaves out.\<close>

record collected =
  kept :: "kept_clip list"
  ignored :: "ignored_clip list"

definition kept_of :: "item \<Rightarrow> ustr \<Rightarrow> rat \<Rightarrow> rat \<Rightarrow> rat \<Rightarrow> kept_clip" where
  "kept_of it nm start end' dur =
     \<lparr>c_item = it, c_start = start, c_end = end', c_name = nm, c_dur = dur\<rparr>"

definition ignored_of :: "item \<Rightarrow> reason \<Rightarrow> ustr \<Rightarrow> rat \<Rightarrow> rat \<Rightarrow> rat \<Rightarrow> ignored_clip" where
  "ignored_of it r nm start end' dur =
     \<lparr>c_item = it, c_start = start, c_end = end', c_name = nm, c_dur = dur, c_reason = r\<rparr>"

fun collect_items_with_ignored ::
  "(ustr \<Rightarrow> ustr) \<Rightarrow> rat \<Rightarrow> bool \<Rightarrow> bool \<Rightarrow> ustr list \<Rightarrow> item list \<Rightarrow> collected
     \<Rightarrow> error + collected" where
  "collect_items_with_ignored lower fps exclude_text_plus ignore_effects extra_ignore [] acc =
     Inr acc"
| "collect_items_with_ignored lower fps exclude_text_plus ignore_effects extra_ignore
     (it # items) acc =
     (if exclude_text_plus \<and> has_fusion_comp it
      then
        (case times_of fps it of
           Inl e \<Rightarrow> Inl e
         | Inr (start, end', dur) \<Rightarrow>
             collect_items_with_ignored lower fps exclude_text_plus ignore_effects
               extra_ignore items
               (acc\<lparr>ignored := ignored acc
                  @ [ignored_of it text_plus_reason (name_of it) start end' dur]\<rparr>))
      else
        (case times_of fps it of
           Inl e \<Rightarrow> Inl e
         | Inr (start, end', dur) \<Rightarrow>
             if should_ignore lower (name_of it) dur ignore_effects extra_ignore
             then collect_items_with_ignored lower fps exclude_text_plus ignore_effects
                    extra_ignore items
                    (acc\<lparr>ignored := ignored acc
                       @ [ignored_of it effect_reason (name_of it) start end' dur]\<rparr>)
             else collect_items_with_ignored lower fps exclude_text_plus ignore_effects
                    extra_ignore items
                    (acc\<lparr>kept := kept acc @ [kept_of it (name_of it) start end' dur]\<rparr>)))"

fun collect_tracks_with_ignored ::
  "(ustr \<Rightarrow> ustr) \<Rightarrow> rat \<Rightarrow> ustr \<Rightarrow> bool \<Rightarrow> bool \<Rightarrow> ustr list \<Rightarrow> track list \<Rightarrow> collected
     \<Rightarrow> error + collected" where
  "collect_tracks_with_ignored lower fps track_name exclude_text_plus ignore_effects
     extra_ignore [] acc = Inr acc"
| "collect_tracks_with_ignored lower fps track_name exclude_text_plus ignore_effects
     extra_ignore (tr # trs) acc =
     (if GetTrackName tr \<noteq> track_name
      then collect_tracks_with_ignored lower fps track_name exclude_text_plus ignore_effects
             extra_ignore trs acc
      else
        (case collect_items_with_ignored lower fps exclude_text_plus ignore_effects
                extra_ignore (items_or_empty tr) acc of
           Inl e \<Rightarrow> Inl e
         | Inr acc' \<Rightarrow>
             collect_tracks_with_ignored lower fps track_name exclude_text_plus
               ignore_effects extra_ignore trs acc'))"

definition collect_clips_with_ignored ::
  "(ustr \<Rightarrow> ustr) \<Rightarrow> timeline option \<Rightarrow> ustr \<Rightarrow> bool \<Rightarrow> bool \<Rightarrow> ustr list option
     \<Rightarrow> error + collected" where
  "collect_clips_with_ignored lower timeline track_name exclude_text_plus ignore_effects
     extra_ignore =
     (case timeline of
        None \<Rightarrow> Inr \<lparr>kept = [], ignored = []\<rparr>
      | Some t \<Rightarrow>
          collect_tracks_with_ignored lower (timelineFrameRate t) track_name
            exclude_text_plus ignore_effects
            (case extra_ignore of None \<Rightarrow> [] | Some e \<Rightarrow> e)
            (video_tracks t) \<lparr>kept = [], ignored = []\<rparr>)"

text \<open>
  The raw element sequence of a track name: the items of every video track of that name,
  in the order of the tracks. \<open>keeps\<close> is the test that an item passes to be kept.
\<close>

definition raw_items :: "timeline \<Rightarrow> ustr \<Rightarrow> item list" where
  "raw_items t track_name =
     concat (map items_or_empty (filter (\<lambda>tr. GetTrackName tr = track_name) (video_tracks t)))"

definition keeps ::
  "(ustr \<Rightarrow> ustr) \<Rightarrow> rat \<Rightarrow> bool \<Rightarrow> bool \<Rightarrow> ustr list \<Rightarrow> item \<Rightarrow> bool" where
  "keeps lower fps exclude_text_plus ignore_effects extra_ignore it =
     (if exclude_text_plus \<and> has_fusion_comp it then False
      else (case times_of fps it of
              Inl e \<Rightarrow> False
            | Inr (start, end', dur) \<Rightarrow>
                \<not> should_ignore lower (name_of it) dur ignore_effects extra_ignore))"

section \<open>Writing the subtitle file\<close>

text \<open>
  What a command leaves behind: the lines it printed, and the strings it wrote to the
  output file, one per call of \<open>w.write\<close> (\<open>None\<close> when it opened no file).
\<close>

record outcome =
  printed :: "ustr list"
  written :: "ustr list option"

text \<open>One record of the file, and the two calls of \<open>_fmt_time\<close> before it.\<close>

definition srt_record :: "nat \<Rightarrow> ustr \<Rightarrow> ustr \<Rightarrow> ustr \<Rightarrow> ustr" where
  "srt_record idx start end' text =
     pyint idx @ str ''\<newline>'' @ start @ str '' --> '' @ end' @ str ''\<newline>'' @ text
       @ str ''\<newline>\<newline>''"

definition write_entry :: "nat \<Rightarrow> rat \<Rightarrow> rat \<Rightarrow> ustr \<Rightarrow> error + ustr" where
  "write_entry idx s e text =
     (case fmt_time s of
        Inl err \<Rightarrow> Inl err
      | Inr start \<Rightarrow>
          (case fmt_time e of
             Inl err \<Rightarrow> Inl err
           | Inr end' \<Rightarrow> Inr (srt_record idx start end' text)))"

text \<open>
  \<open>write_srt\<close>: the loop \<open>for i in range(count)\<close> reads \<open>blocks[i]\<close> and \<open>clips[i]\<close>
  with \<open>i\<close> below both lengths.
\<close>

fun write_srt_loop :: "nat list \<Rightarrow> ustr list \<Rightarrow> 'a clip_scheme list \<Rightarrow> error + ustr list" where
  "write_srt_loop [] blocks clips = Inr []"
| "write_srt_loop (i # is) blocks clips =
     (case write_entry (i + 1) (c_start (clips ! i)) (c_end (clips ! i)) (blocks ! i) of
        Inl err \<Rightarrow> Inl err
      | Inr r \<Rightarrow>
          (case write_srt_loop is blocks clips of
             Inl err \<Rightarrow> Inl err
           | Inr rs \<Rightarrow> Inr (r # rs)))"

definition warn_truncating :: "nat \<Rightarrow> nat \<Rightarrow> nat \<Rightarrow> ustr" where
  "warn_truncating nb nc count =
     str ''[warn] blocks='' @ pyint nb @ str '' clips='' @ pyint nc
       @ str '' -> truncating to '' @ pyint count"

definition ok_wrote :: "nat \<Rightarrow> ustr \<Rightarrow> ustr" where
  "ok_wrote count out_path =
     str ''[ok] wrote '' @ pyint count @ str '' entries -> '' @ out_path"

definition write_srt ::
  "ustr list \<Rightarrow> 'a clip_scheme list \<Rightarrow> ustr \<Rightarrow> fsys \<Rightarrow> error + outcome" where
  "write_srt blocks clips out_path fs =
     (let count = min (length blocks) (length clips);
          warn = (if length blocks \<noteq> length clips
                  then [warn_truncating (length blocks) (length clips) count] else [])
      in if \<not> wfile fs out_path then Inl OSError
         else (case write_srt_loop [0..<count] blocks clips of
                 Inl err \<Rightarrow> Inl err
               | Inr rs \<Rightarrow>
                   Inr \<lparr>printed = warn @ [ok_wrote count out_path], written = Some rs\<rparr>))"

section \<open>Mixed mode\<close>

text \<open>
  The items that \<open>write_srt_mixed\<close> gathers: \<open>kind\<close> is \<open>'text'\<close> or \<open>'text_plus'\<close>,
  \<open>api_text\<close> the styled text pulled from the item's Fusion composition. \<open>truthy\<close> is
  the test \<open>if text_plus_value\<close>.
\<close>

datatype kind = text_kind | text_plus_kind

record mitem =
  m_start :: rat
  m_end :: rat
  m_kind :: kind
  m_api_text :: "ustr option"
  m_name :: ustr

definition truthy :: "ustr option \<Rightarrow> bool" where
  "truthy v = (case v of None \<Rightarrow> False | Some s \<Rightarrow> s \<noteq> [])"

text \<open>
  The loop \<open>for tid in ('TextPlus', 'Text')\<close>: the first tool that yields a non-empty
  text ends it.
\<close>

definition styled_text_of :: "tool \<Rightarrow> ustr option" where
  "styled_text_of t =
     (case GetInput_StyledText t of
        Returns v \<Rightarrow> v
      | Raises \<Rightarrow> (case GetData_StyledText t of Returns v \<Rightarrow> v | Raises \<Rightarrow> None))"

fun pull_text :: "comp \<Rightarrow> ustr list \<Rightarrow> ustr option \<Rightarrow> ustr option" where
  "pull_text c [] text_plus_value = text_plus_value"
| "pull_text c (tid # tids) text_plus_value =
     (case (case FindToolByID c tid of Raises \<Rightarrow> None | Returns t \<Rightarrow> t) of
        None \<Rightarrow> pull_text c tids text_plus_value
      | Some t \<Rightarrow>
          (let v = styled_text_of t in if truthy v then v else pull_text c tids v))"

text \<open>Gathering the items of the tracks of the given name.\<close>

fun gather_items ::
  "(ustr \<Rightarrow> ustr) \<Rightarrow> rat \<Rightarrow> bool \<Rightarrow> bool \<Rightarrow> ustr list \<Rightarrow> item list \<Rightarrow> mitem list
     \<Rightarrow> error + mitem list" where
  "gather_items lower fps include_text_plus ignore_effects extra_ignore [] items = Inr items"
| "gather_items lower fps include_text_plus ignore_effects extra_ignore (it # its) items =
     (case times_of fps it of
        Inl e \<Rightarrow> Inl e
      | Inr (start, end', dur) \<Rightarrow>
          if should_ignore lower (name_of it) dur ignore_effects extra_ignore
          then gather_items lower fps include_text_plus ignore_effects extra_ignore its items
          else
            (case fusion_comp_of it of
               None \<Rightarrow>
                 gather_items lower fps include_text_plus ignore_effects extra_ignore its
                   (items @ [\<lparr>m_start = start, m_end = end', m_kind = text_kind,
                               m_api_text = None, m_name = name_of it\<rparr>])
             | Some c \<Rightarrow>
                 if \<not> include_text_plus
                 then gather_items lower fps include_text_plus ignore_effects extra_ignore
                        its items
                 else gather_items lower fps include_text_plus ignore_effects extra_ignore
                        its
                        (items @ [\<lparr>m_start = start, m_end = end', m_kind = text_plus_kind,
                                    m_api_text = pull_text c [str ''TextPlus'', str ''Text''] None,
                                    m_name = name_of it\<rparr>])))"

fun gather_tracks ::
  "(ustr \<Rightarrow> ustr) \<Rightarrow> rat \<Rightarrow> ustr \<Rightarrow> bool \<Rightarrow> bool \<Rightarrow> ustr list \<Rightarrow> track list \<Rightarrow> mitem list
     \<Rightarrow> error + mitem list" where
  "gather_tracks lower fps track_name include_text_plus ignore_effects extra_ignore [] items =
     Inr items"
| "gather_tracks lower fps track_name include_text_plus ignore_effects extra_ignore (tr # trs)
     items =
     (if GetTrackName tr \<noteq> track_name
      then gather_tracks lower fps track_name include_text_plus ignore_effects extra_ignore
             trs items
      else
        (case gather_items lower fps include_text_plus ignore_effects extra_ignore
                (items_or_empty tr) items of
           Inl e \<Rightarrow> Inl e
         | Inr items' \<Rightarrow>
             gather_tracks lower fps track_name include_text_plus ignore_effects extra_ignore
               trs items'))"

text \<open>
  The pairing loop, on the state \<open>manual_idx\<close>, \<open>used_manual\<close>, \<open>entries\<close>.
  \<open>takes_own_text\<close> is the condition of its first branch.
\<close>

record mstate =
  manual_idx :: nat
  used_manual :: nat
  entries :: "(rat \<times> rat \<times> ustr) list"

definition takes_own_text :: "mitem \<Rightarrow> bool" where
  "takes_own_text it = (m_kind it = text_plus_kind \<and> truthy (m_api_text it))"

definition mixed_step :: "ustr list \<Rightarrow> mstate \<Rightarrow> mitem \<Rightarrow> mstate" where
  "mixed_step manual_blocks st it =
     (if m_kind it = text_plus_kind \<and> truthy (m_api_text it) then
        st\<lparr>entries := entries st
             @ [(m_start it, m_end it,
                 strip (case m_api_text it of None \<Rightarrow> [] | Some s \<Rightarrow> s))]\<rparr>
      else if m_kind it = text_plus_kind \<and> \<not> truthy (m_api_text it) then
        (if manual_idx st < length manual_blocks then
           st\<lparr>manual_idx := manual_idx st + 1, used_manual := used_manual st + 1,
              entries := entries st
                @ [(m_start it, m_end it, strip (manual_blocks ! manual_idx st))]\<rparr>
         else st\<lparr>entries := entries st @ [(m_start it, m_end it, [])]\<rparr>)
      else
        (if manual_idx st < length manual_blocks then
           st\<lparr>manual_idx := manual_idx st + 1, used_manual := used_manual st + 1,
              entries := entries st
                @ [(m_start it, m_end it, strip (manual_blocks ! manual_idx st))]\<rparr>
         else st\<lparr>entries := entries st @ [(m_start it, m_end it, [])]\<rparr>))"

definition mixed_loop :: "ustr list \<Rightarrow> mitem list \<Rightarrow> mstate" where
  "mixed_loop manual_blocks items =
     foldl (mixed_step manual_blocks) \<lparr>manual_idx = 0, used_manual = 0, entries = []\<rparr> items"

text \<open>The count of empty entries, the file, the report and the function.\<close>

definition missing_plain :: "(rat \<times> rat \<times> ustr) list \<Rightarrow> nat" where
  "missing_plain es = length (filter (\<lambda>e. snd (snd e) = []) es)"

fun write_mixed_loop :: "nat \<Rightarrow> (rat \<times> rat \<times> ustr) list \<Rightarrow> error + ustr list" where
  "write_mixed_loop idx [] = Inr []"
| "write_mixed_loop idx ((s, e, text) # es) =
     (case write_entry idx s e text of
        Inl err \<Rightarrow> Inl err
      | Inr r \<Rightarrow>
          (case write_mixed_loop (idx + 1) es of
             Inl err \<Rightarrow> Inl err
           | Inr rs \<Rightarrow> Inr (r # rs)))"

definition mixed_report :: "ustr list \<Rightarrow> mitem list \<Rightarrow> mstate \<Rightarrow> ustr \<Rightarrow> ustr list" where
  "mixed_report manual_blocks items st out_path =
     (if manual_idx st < length manual_blocks
      then [str ''[warn] unused manual blocks: ''
              @ pyint (length manual_blocks - manual_idx st)]
      else [])
     @ (if missing_plain (entries st) \<noteq> 0
        then [str ''[warn] empty subtitle entries: '' @ pyint (missing_plain (entries st))]
        else [])
     @ [str ''[ok] wrote '' @ pyint (length (entries st)) @ str '' entries -> '' @ out_path
          @ str '' (manual_used='' @ pyint (used_manual st) @ str ''/''
          @ pyint (length manual_blocks) @ str '' text_plus=''
          @ pyint (length (filter (\<lambda>i. m_kind i = text_plus_kind) items)) @ str '')'']"

definition write_srt_mixed ::
  "(ustr \<Rightarrow> ustr) \<Rightarrow> timeline option \<Rightarrow> ustr list \<Rightarrow> ustr \<Rightarrow> ustr \<Rightarrow> bool \<Rightarrow> bool
     \<Rightarrow> ustr list option \<Rightarrow> fsys \<Rightarrow> error + outcome" where
  "write_srt_mixed lower timeline manual_blocks track_name out_path include_text_plus
     ignore_effects extra_ignore fs =
     (case timeline of
        None \<Rightarrow> Inr \<lparr>printed = [str ''[error] no timeline''], written = None\<rparr>
      | Some t \<Rightarrow>
          (case gather_tracks lower (timelineFrameRate t) track_name include_text_plus
                  ignore_effects (case extra_ignore of None \<Rightarrow> [] | Some e \<Rightarrow> e)
                  (video_tracks t) [] of
             Inl e \<Rightarrow> Inl e
           | Inr gathered \<Rightarrow>
               (let items = sort_key m_start gathered;
                    st = mixed_loop manual_blocks items
                in if \<not> wfile fs out_path then Inl OSError
                   else (case write_mixed_loop 1 (entries st) of
                           Inl err \<Rightarrow> Inl err
                         | Inr rs \<Rightarrow>
                             Inr \<lparr>printed = mixed_report manual_blocks items st out_path,
                                  written = Some rs\<rparr>))))"

text \<open>
  For stating what the loop does: the number of manual blocks that the elements before
  position \<open>j\<close> ask for, and the text that the element at position \<open>j\<close> is paired
  with.
\<close>

definition consumed_before :: "mitem list \<Rightarrow> nat \<Rightarrow> nat" where
  "consumed_before items j = length (filter (\<lambda>it. \<not> takes_own_text it) (take j items))"

definition entry_text :: "ustr list \<Rightarrow> mitem list \<Rightarrow> nat \<Rightarrow> ustr" where
  "entry_text manual_blocks items j =
     (if takes_own_text (items ! j)
      then strip (case m_api_text (items ! j) of None \<Rightarrow> [] | Some s \<Rightarrow> s)
      else if consumed_before items j < length manual_blocks
           then strip (manual_blocks ! consumed_before items j)
           else [])"

section \<open>Example data\<close>

text \<open>
  A track "Subs" at 24 frames per second with a title of two seconds and a cross
  dissolve of half a second; three plain clips at (0, 2), (2, 5) and (5, 5.5) seconds;
  five manual blocks; a file system with three manual files, one of them not UTF-8.
\<close>

definition demo_title :: item where
  "demo_title =
     \<lparr>GetStart = 0, GetEnd = 48, GetName = Returns (Some (str ''Title'')),
      GetFusionCompByIndex = (\<lambda>i. Returns None)\<rparr>"

definition demo_dissolve :: item where
  "demo_dissolve =
     \<lparr>GetStart = 48, GetEnd = 60, GetName = Returns (Some (str ''Cross Dissolve'')),
      GetFusionCompByIndex = (\<lambda>i. Returns None)\<rparr>"

definition demo_timeline :: timeline where
  "demo_timeline =
     \<lparr>video_tracks =
        [\<lparr>GetTrackName = str ''Subs'',
          GetItemListInTrack = Some [demo_title, demo_dissolve]\<rparr>],
      timelineFrameRate = 24\<rparr>"

definition demo_clips :: "clip list" where
  "demo_clips =
     [\<lparr>c_item = demo_title, c_start = 0, c_end = 2, c_name = str ''A''\<rparr>,
      \<lparr>c_item = demo_title, c_start = 2, c_end = 5, c_name = str ''B''\<rparr>,
      \<lparr>c_item = demo_title, c_start = 5, c_end = 11 / 2, c_name = str ''C''\<rparr>]"

definition demo_blocks :: "ustr list" where
  "demo_blocks = [str ''one'', str ''two'', str ''three'', str ''four'', str ''five'']"

definition demo_fs :: fsys where
  "demo_fs =
     \<lparr>rfile = (\<lambda>p. if p = str ''manual.txt''
                     then Some ''stray\<newline>>First\<newline>line2\<newline>>Second''
                     else if p = str ''blank.txt'' then Some ''>   \<newline>''
                     else if p = str ''sjis.txt'' then Some [CHR 0x3E, CHR 0x82, CHR 0xA0]
                     else None),
      wfile = (\<lambda>p. p = str ''out.srt'')\<rparr>"

text \<open>
  Gathered items of mixed mode: a styled element with text, a plain one, a styled one
  without text, and a styled one whose text is two spaces.
\<close>

definition demo_styled :: mitem where
  "demo_styled = \<lparr>m_start = 0, m_end = 2, m_kind = text_plus_kind,
     m_api_text = Some (str ''Hello ''), m_name = str ''T1''\<rparr>"

definition demo_plain :: mitem where
  "demo_plain = \<lparr>m_start = 2, m_end = 5, m_kind = text_kind,
     m_api_text = None, m_name = str ''T2''\<rparr>"

definition demo_styled_no_text :: mitem where
  "demo_styled_no_text = \<lparr>m_start = 5, m_end = 11 / 2, m_kind = text_plus_kind,
     m_api_text = None, m_name = str ''T3''\<rparr>"


section \<open>Facts about strings\<close>



section \<open>Facts about the parser\<close>

lemma rstrip_prefix: "\<exists>zs. t = rstrip t @ zs"
proof -
  have "rstrip t @ rev (takeWhile isspace (rev t))
      = rev (takeWhile isspace (rev t) @ dropWhile isspace (rev t))"
    by (simp only: rstrip_def rev_append)
  also have "\<dots> = t"
    by (simp only: takeWhile_dropWhile_id rev_rev_ident)
  finally show ?thesis by metis
qed

lemma rstrip_idem: "rstrip (rstrip t) = rstrip t"
  by (simp add: rstrip_def)

lemma lstrip_rstrip_lstrip: "lstrip (rstrip (lstrip s)) = rstrip (lstrip s)"
proof (cases "rstrip (lstrip s)")
  case Nil
  then show ?thesis by (simp add: lstrip_def)
next
  case (Cons c cs)
  from rstrip_prefix [of "lstrip s"] Cons obtain zs where t: "lstrip s = c # cs @ zs"
    by auto
  then have "dropWhile isspace s = c # cs @ zs" by (simp add: lstrip_def)
  then have "\<not> isspace c" by (metis hd_dropWhile list.sel(1) list.distinct(1))
  with Cons show ?thesis by (simp add: lstrip_def)
qed

lemma strip_idem: "strip (strip s) = strip s"
  by (simp add: strip_def lstrip_rstrip_lstrip rstrip_idem)

lemma parse_lines_finish: "parse_lines raws = finish (foldl parse_step ([], []) raws)"
  by (simp add: parse_lines_def finish_def Let_def)

lemma parse_step_delimiter:
  "is_delimiter raw \<Longrightarrow>
     parse_step (blocks, cur) raw =
       ((if cur \<noteq> [] then blocks @ [strip (join_nl cur)] else blocks),
        [lstrip (tl (rstrip_nl raw))])"
  by (simp add: parse_step_def is_delimiter_def Let_def)

lemma parse_step_continuation:
  "\<not> is_delimiter raw \<Longrightarrow>
     parse_step (blocks, cur) raw = (blocks, if cur \<noteq> [] then cur @ [rstrip_nl raw] else cur)"
  by (simp add: parse_step_def is_delimiter_def Let_def)

lemma parse_loop_sections:
  "finish (foldl parse_step (blocks, cur) raws) =
     filter (\<lambda>b. b \<noteq> [])
       (blocks
        @ (if cur \<noteq> []
           then [strip (join_nl (cur @ map rstrip_nl (fst (split_sections raws))))] else [])
        @ map block_text (snd (split_sections raws)))"
proof (induction raws arbitrary: blocks cur)
  case Nil
  show ?case by (simp add: finish_def)
next
  case (Cons raw raws)
  show ?case
  proof (cases "is_delimiter raw")
    case True
    then show ?thesis
      by (simp add: parse_step_delimiter Cons.IH Let_def block_text_def)
  next
    case False
    then show ?thesis
      by (simp add: parse_step_continuation Cons.IH Let_def)
  qed
qed

lemma parse_lines_spec: "parse_lines raws = blocks_spec raws"
  by (simp add: parse_lines_finish parse_loop_sections blocks_spec_def)

lemma split_sections_stray:
  "\<forall>raw\<in>set pre. \<not> is_delimiter raw \<Longrightarrow>
     split_sections (pre @ raws) = (pre @ fst (split_sections raws), snd (split_sections raws))"
  by (induction pre) (simp_all add: Let_def)

lemma strip_Nil: "strip [] = []"
  by (simp add: strip_def lstrip_def rstrip_def)

lemma block_text_stripped: "strip (block_text sec) = block_text sec"
  by (cases sec) (simp_all add: block_text_def strip_idem strip_Nil)

section \<open>Facts about the collectors\<close>

lemma times_of_total: "fps \<noteq> 0 \<Longrightarrow> \<exists>s e d. times_of fps it = Inr (s, e, d)"
  by (simp add: times_of_def truediv_def)

lemma keeps_excluded:
  "ex \<and> has_fusion_comp it \<Longrightarrow> \<not> keeps lower fps ex ig extra it"
  by (simp add: keeps_def)

lemma keeps_timed:
  "\<not> (ex \<and> has_fusion_comp it) \<Longrightarrow> times_of fps it = Inr (s, e, d) \<Longrightarrow>
     keeps lower fps ex ig extra it = (\<not> should_ignore lower (name_of it) d ig extra)"
  by (cases ex) (auto simp: keeps_def)

lemma collect_items_Cons:
  "collect_items lower fps ex ig extra (it # items) res =
     (if ex \<and> has_fusion_comp it then collect_items lower fps ex ig extra items res
      else case times_of fps it of
             Inl e \<Rightarrow> Inl e
           | Inr (s, e, d) \<Rightarrow>
               collect_items lower fps ex ig extra items
                 (if keeps lower fps ex ig extra it
                  then res @ [\<lparr>c_item = it, c_start = s, c_end = e, c_name = name_of it\<rparr>]
                  else res))"
  by (auto simp: keeps_def split: sum.splits)

lemma collect_items_filter:
  "collect_items lower fps ex ig extra items res = Inr out \<Longrightarrow>
     map c_item out = map c_item res @ filter (keeps lower fps ex ig extra) items"
proof (induction items arbitrary: res)
  case Nil
  then show ?case by simp
next
  case (Cons it items)
  show ?case
  proof (cases "ex \<and> has_fusion_comp it")
    case True
    with Cons.prems have "collect_items lower fps ex ig extra items res = Inr out"
      unfolding collect_items_Cons by simp
    from Cons.IH [OF this] keeps_excluded [OF True] show ?thesis by simp
  next
    case False
    with Cons.prems obtain s e d where t: "times_of fps it = Inr (s, e, d)"
      unfolding collect_items_Cons by (auto split: sum.splits)
    with False Cons.prems have
      "collect_items lower fps ex ig extra items
         (if keeps lower fps ex ig extra it
          then res @ [\<lparr>c_item = it, c_start = s, c_end = e, c_name = name_of it\<rparr>]
          else res) = Inr out"
      unfolding collect_items_Cons by (cases ex) auto
    from Cons.IH [OF this] show ?thesis by simp
  qed
qed

lemma collect_items_total:
  "fps \<noteq> 0 \<Longrightarrow> \<exists>out. collect_items lower fps ex ig extra items res = Inr out"
proof (induction items arbitrary: res)
  case Nil
  then show ?case by simp
next
  case (Cons it items)
  from times_of_total [OF Cons.prems] obtain s e d where "times_of fps it = Inr (s, e, d)"
    by blast
  with Cons.IH [OF Cons.prems] show ?case unfolding collect_items_Cons by (cases ex) auto
qed

lemma collect_tracks_filter:
  "collect_tracks lower fps name ex ig extra trs res = Inr out \<Longrightarrow>
     map c_item out = map c_item res
       @ filter (keeps lower fps ex ig extra)
           (concat (map items_or_empty (filter (\<lambda>tr. GetTrackName tr = name) trs)))"
proof (induction trs arbitrary: res)
  case Nil
  then show ?case by simp
next
  case (Cons tr trs)
  show ?case
  proof (cases "GetTrackName tr = name")
    case False
    with Cons show ?thesis by simp
  next
    case True
    with Cons.prems obtain res' where
      a: "collect_items lower fps ex ig extra (items_or_empty tr) res = Inr res'" and
      b: "collect_tracks lower fps name ex ig extra trs res' = Inr out"
      by (auto split: sum.splits)
    from collect_items_filter [OF a] Cons.IH [OF b] True show ?thesis by simp
  qed
qed

lemma collect_tracks_total:
  "fps \<noteq> 0 \<Longrightarrow> \<exists>out. collect_tracks lower fps name ex ig extra trs res = Inr out"
proof (induction trs arbitrary: res)
  case Nil
  then show ?case by simp
next
  case (Cons tr trs)
  from collect_items_total [OF Cons.prems] obtain res' where
    "collect_items lower fps ex ig extra (items_or_empty tr) res = Inr res'" by blast
  with Cons.IH [OF Cons.prems] show ?case by simp
qed

lemma collect_items_wi_Cons:
  "collect_items_with_ignored lower fps ex ig extra (it # items) acc =
     (case times_of fps it of
        Inl e \<Rightarrow> Inl e
      | Inr (s, e, d) \<Rightarrow>
          collect_items_with_ignored lower fps ex ig extra items
            (if keeps lower fps ex ig extra it
             then acc\<lparr>kept := kept acc @ [kept_of it (name_of it) s e d]\<rparr>
             else acc\<lparr>ignored := ignored acc
                    @ [ignored_of it
                         (if ex \<and> has_fusion_comp it then text_plus_reason
                          else effect_reason)
                         (name_of it) s e d]\<rparr>))"
  by (auto simp: keeps_def split: sum.splits)

lemma collect_items_wi_filter:
  "collect_items_with_ignored lower fps ex ig extra items acc = Inr out \<Longrightarrow>
     map c_item (kept out) = map c_item (kept acc) @ filter (keeps lower fps ex ig extra) items"
proof (induction items arbitrary: acc)
  case Nil
  then show ?case by simp
next
  case (Cons it items)
  from Cons.prems obtain s e d where t: "times_of fps it = Inr (s, e, d)"
    unfolding collect_items_wi_Cons by (auto split: sum.splits)
  with Cons.prems have
    "collect_items_with_ignored lower fps ex ig extra items
       (if keeps lower fps ex ig extra it
        then acc\<lparr>kept := kept acc @ [kept_of it (name_of it) s e d]\<rparr>
        else acc\<lparr>ignored := ignored acc
               @ [ignored_of it
                    (if ex \<and> has_fusion_comp it then text_plus_reason
                     else effect_reason)
                    (name_of it) s e d]\<rparr>) = Inr out"
    unfolding collect_items_wi_Cons by simp
  from Cons.IH [OF this] show ?case by (simp add: kept_of_def)
qed

lemma collect_items_wi_total:
  "fps \<noteq> 0 \<Longrightarrow> \<exists>out. collect_items_with_ignored lower fps ex ig extra items acc = Inr out"
proof (induction items arbitrary: acc)
  case Nil
  then show ?case by simp
next
  case (Cons it items)
  from times_of_total [OF Cons.prems] obtain s e d where "times_of fps it = Inr (s, e, d)"
    by blast
  with Cons.IH [OF Cons.prems] show ?case unfolding collect_items_wi_Cons by simp
qed

lemma collect_tracks_wi_filter:
  "collect_tracks_with_ignored lower fps name ex ig extra trs acc = Inr out \<Longrightarrow>
     map c_item (kept out) = map c_item (kept acc)
       @ filter (keeps lower fps ex ig extra)
           (concat (map items_or_empty (filter (\<lambda>tr. GetTrackName tr = name) trs)))"
proof (induction trs arbitrary: acc)
  case Nil
  then show ?case by simp
next
  case (Cons tr trs)
  show ?case
  proof (cases "GetTrackName tr = name")
    case False
    with Cons show ?thesis by simp
  next
    case True
    with Cons.prems obtain acc' where
      a: "collect_items_with_ignored lower fps ex ig extra (items_or_empty tr) acc = Inr acc'" and
      b: "collect_tracks_with_ignored lower fps name ex ig extra trs acc' = Inr out"
      by (auto split: sum.splits)
    from collect_items_wi_filter [OF a] Cons.IH [OF b] True show ?thesis by simp
  qed
qed

lemma collect_tracks_wi_total:
  "fps \<noteq> 0 \<Longrightarrow>
     \<exists>out. collect_tracks_with_ignored lower fps name ex ig extra trs acc = Inr out"
proof (induction trs arbitrary: acc)
  case Nil
  then show ?case by simp
next
  case (Cons tr trs)
  from collect_items_wi_total [OF Cons.prems] obtain acc' where
    "collect_items_with_ignored lower fps ex ig extra (items_or_empty tr) acc = Inr acc'"
    by blast
  with Cons.IH [OF Cons.prems] show ?case by simp
qed

section \<open>Facts about rounding\<close>

lemma rhe_cases: "rhe x = \<lfloor>x\<rfloor> \<or> rhe x = \<lfloor>x\<rfloor> + 1"
  by (simp add: rhe_def Let_def)

lemma rhe_of_int: "rhe (of_int n) = n"
  by (simp add: rhe_def Let_def)

lemma rhe_mono: "a \<le> b \<Longrightarrow> rhe a \<le> rhe b"
proof -
  assume ab: "a \<le> b"
  then have fl: "\<lfloor>a\<rfloor> \<le> \<lfloor>b\<rfloor>" by (rule floor_mono)
  show ?thesis
  proof (cases "\<lfloor>a\<rfloor> = \<lfloor>b\<rfloor>")
    case True
    with ab have "a - of_int \<lfloor>a\<rfloor> \<le> b - of_int \<lfloor>b\<rfloor>" by simp
    with True show ?thesis by (auto simp: rhe_def Let_def)
  next
    case False
    with fl have "\<lfloor>a\<rfloor> + 1 \<le> \<lfloor>b\<rfloor>" by simp
    moreover have "rhe a \<le> \<lfloor>a\<rfloor> + 1" using rhe_cases [of a] by auto
    moreover have "\<lfloor>b\<rfloor> \<le> rhe b" using rhe_cases [of b] by auto
    ultimately show ?thesis by simp
  qed
qed

lemma rhe_nonneg: "0 \<le> x \<Longrightarrow> 0 \<le> rhe x"
  using rhe_mono [of 0 x] rhe_of_int [of 0] by simp

lemma rhe_error: "\<bar>of_int (rhe x) - x\<bar> \<le> 1 / 2"
proof -
  have "of_int \<lfloor>x\<rfloor> \<le> x" "x < of_int \<lfloor>x\<rfloor> + 1" by linarith+
  then show ?thesis unfolding rhe_def Let_def by (auto simp: abs_if; linarith)
qed

lemma ilog2_bounds:
  assumes "0 < x"
  shows "2 powi (ilog2 x) \<le> x \<and> x < 2 powi (ilog2 x + 1)"
proof (cases "1 \<le> x")
  case True
  let ?n = "\<lfloor>x\<rfloor>"
  from True have n: "0 < ?n" by simp
  from bitlen_bounds [OF n] have lo: "2 ^ nat (bitlen ?n - 1) \<le> ?n" and hi: "?n < 2 ^ nat (bitlen ?n)"
    by auto
  from n have b1: "1 \<le> bitlen ?n" by (simp add: bitlen_alt_def)
  have e: "ilog2 x = bitlen ?n - 1" using True by (simp add: ilog2_def)
  have "(2::rat) powi (bitlen ?n - 1) = of_int (2 ^ nat (bitlen ?n - 1))"
    using b1 by (simp add: power_int_def)
  also have "\<dots> \<le> of_int ?n" using lo by (simp only: of_int_le_iff)
  also have "\<dots> \<le> x" by simp
  finally have A: "2 powi (ilog2 x) \<le> x" by (simp add: e)
  from hi have "?n + 1 \<le> 2 ^ nat (bitlen ?n)" by simp
  then have "(of_int (?n + 1) :: rat) \<le> of_int (2 ^ nat (bitlen ?n))"
    by (simp only: of_int_le_iff)
  moreover have "x < of_int (?n + 1)" by linarith
  moreover have "(2::rat) powi (bitlen ?n - 1 + 1) = of_int (2 ^ nat (bitlen ?n))"
    using b1 by (simp add: power_int_def)
  ultimately have B: "x < 2 powi (ilog2 x + 1)" by (simp add: e)
  from A B show ?thesis by simp
next
  case False
  let ?y = "1 / x"
  let ?j = "\<lceil>?y\<rceil> - 1"
  from False assms have y1: "1 < ?y" by simp
  then have j: "0 < ?j" by linarith
  from bitlen_bounds [OF j] have lo: "2 ^ nat (bitlen ?j - 1) \<le> ?j" and hi: "?j < 2 ^ nat (bitlen ?j)"
    by auto
  from j have b1: "1 \<le> bitlen ?j" by (simp add: bitlen_alt_def)
  have e: "ilog2 x = - bitlen ?j" using False by (simp add: ilog2_def)
  have p1: "(2::rat) powi (- bitlen ?j) = 1 / of_int (2 ^ nat (bitlen ?j))"
    using b1 by (simp add: power_int_def field_simps)
  have p2: "(2::rat) powi (- bitlen ?j + 1) = 1 / of_int (2 ^ nat (bitlen ?j - 1))"
    using b1 by (simp add: power_int_def field_simps nat_diff_distrib)
  from hi have "\<lceil>?y\<rceil> \<le> 2 ^ nat (bitlen ?j)" by simp
  then have "(of_int \<lceil>?y\<rceil> :: rat) \<le> of_int (2 ^ nat (bitlen ?j))"
    by (simp only: of_int_le_iff)
  moreover have "?y \<le> of_int \<lceil>?y\<rceil>" by (rule le_of_int_ceiling)
  ultimately have "?y \<le> of_int (2 ^ nat (bitlen ?j))" by (rule order_trans [rotated])
  then have A: "2 powi (ilog2 x) \<le> x"
    using assms unfolding e p1 by (simp add: field_simps)
  from lo have "(of_int (2 ^ nat (bitlen ?j - 1)) :: rat) \<le> of_int ?j"
    by (simp only: of_int_le_iff)
  moreover have "of_int ?j < ?y" by linarith
  ultimately have "of_int (2 ^ nat (bitlen ?j - 1)) < ?y" by simp
  then have B: "x < 2 powi (ilog2 x + 1)"
    using assms unfolding e p2 by (simp add: field_simps)
  from A B show ?thesis by simp
qed

lemma ulp_bexp: "ulp x = 2 powi (bexp x - 52)"
  by (simp add: ulp_def)

lemma ulp_pos: "0 < ulp x"
  by (simp add: ulp_def)

lemma ulp_scale: "ulp x * 2 ^ 52 = 2 powi (bexp x)"
proof -
  have "(2::rat) powi (bexp x - 52) = 2 powi (bexp x) / 2 powi 52"
    by (rule power_int_diff) simp
  then show ?thesis by (simp add: ulp_bexp)
qed

lemma ulp_scale2: "ulp x * 2 ^ 53 = 2 powi (bexp x + 1)"
proof -
  have "(2::rat) powi (bexp x + 1) = 2 powi (bexp x) * 2"
    by (simp add: power_int_add)
  with ulp_scale [of x] show ?thesis by simp
qed

lemma ilog2_mono:
  assumes "0 < x" "x \<le> y"
  shows "ilog2 x \<le> ilog2 y"
proof (rule ccontr)
  assume "\<not> ilog2 x \<le> ilog2 y"
  then have "ilog2 y + 1 \<le> ilog2 x" by simp
  then have "(2::rat) powi (ilog2 y + 1) \<le> 2 powi (ilog2 x)"
    by (intro power_int_increasing) simp_all
  moreover from assms have "0 < y" by simp
  ultimately show False
    using ilog2_bounds [OF assms(1)] ilog2_bounds [OF \<open>0 < y\<close>] assms(2) by linarith
qed

lemma bexp_mono: "0 < x \<Longrightarrow> x \<le> y \<Longrightarrow> bexp x \<le> bexp y"
  using ilog2_mono [of x y] by (simp add: bexp_def max_def)

lemma rd_pos_eq: "x \<noteq> 0 \<Longrightarrow> rd x = of_int (rhe (x / ulp x)) * ulp x"
  by (simp add: rd_def)

lemma rd_nonneg: "0 \<le> x \<Longrightarrow> 0 \<le> rd x"
proof (cases "x = 0")
  case True
  then show ?thesis by (simp add: rd_def)
next
  case False
  assume "0 \<le> x"
  then have "0 \<le> x / ulp x" using ulp_pos [of x] by simp
  then have "0 \<le> rhe (x / ulp x)" by (rule rhe_nonneg)
  then show ?thesis using ulp_pos [of x] False by (simp add: rd_pos_eq)
qed

lemma rd_upper:
  assumes "0 < x"
  shows "rd x \<le> 2 powi (bexp x + 1)"
proof -
  from assms have "x < 2 powi (ilog2 x + 1)" using ilog2_bounds by blast
  also have "\<dots> \<le> 2 powi (bexp x + 1)"
    using assms by (intro power_int_increasing) (simp_all add: bexp_def)
  finally have "x < ulp x * 2 ^ 53" by (simp only: ulp_scale2)
  then have "x / ulp x \<le> of_int (2 ^ 53)"
    using ulp_pos [of x] by (simp add: field_simps)
  then have "rhe (x / ulp x) \<le> rhe (of_int (2 ^ 53))" by (rule rhe_mono)
  then have "rhe (x / ulp x) \<le> 2 ^ 53" by (simp only: rhe_of_int)
  then have "(of_int (rhe (x / ulp x)) :: rat) \<le> of_int (2 ^ 53)"
    by (simp only: of_int_le_iff)
  then have "of_int (rhe (x / ulp x)) * ulp x \<le> of_int (2 ^ 53) * ulp x"
    using ulp_pos [of x] by (intro mult_right_mono) simp_all
  then show ?thesis using assms ulp_scale2 [of x] by (simp add: rd_pos_eq mult.commute)
qed

lemma rd_lower:
  assumes "0 < x" "- 1022 \<le> ilog2 x"
  shows "2 powi (bexp x) \<le> rd x"
proof -
  from assms have b: "bexp x = ilog2 x" by (simp add: bexp_def)
  from assms have "2 powi (bexp x) \<le> x" using ilog2_bounds [of x] b by simp
  then have "ulp x * 2 ^ 52 \<le> x" by (simp only: ulp_scale)
  then have "of_int (2 ^ 52) \<le> x / ulp x"
    using ulp_pos [of x] by (simp add: field_simps)
  then have "rhe (of_int (2 ^ 52)) \<le> rhe (x / ulp x)" by (rule rhe_mono)
  then have "2 ^ 52 \<le> rhe (x / ulp x)" by (simp only: rhe_of_int)
  then have "(of_int (2 ^ 52) :: rat) \<le> of_int (rhe (x / ulp x))"
    by (simp only: of_int_le_iff)
  then have "of_int (2 ^ 52) * ulp x \<le> of_int (rhe (x / ulp x)) * ulp x"
    using ulp_pos [of x] by (intro mult_right_mono) simp_all
  then show ?thesis using assms ulp_scale [of x] by (simp add: rd_pos_eq mult.commute)
qed

lemma rd_mono_pos:
  assumes "0 < x" "x \<le> y"
  shows "rd x \<le> rd y"
proof -
  from assms have y: "0 < y" by simp
  have le: "bexp x \<le> bexp y" using assms by (rule bexp_mono)
  show ?thesis
  proof (cases "bexp x = bexp y")
    case True
    then have u: "ulp x = ulp y" by (simp add: ulp_bexp)
    from assms have "x / ulp y \<le> y / ulp y"
      using ulp_pos [of y] by (simp add: divide_right_mono)
    then have "rhe (x / ulp y) \<le> rhe (y / ulp y)" by (rule rhe_mono)
    then have "(of_int (rhe (x / ulp y)) :: rat) \<le> of_int (rhe (y / ulp y))"
      by (simp only: of_int_le_iff)
    then have "of_int (rhe (x / ulp y)) * ulp y \<le> of_int (rhe (y / ulp y)) * ulp y"
      using ulp_pos [of y] by (intro mult_right_mono) simp_all
    with assms y u show ?thesis by (simp add: rd_pos_eq)
  next
    case False
    with le have lt: "bexp x + 1 \<le> bexp y" by simp
    then have "- 1022 < bexp y" by (simp add: bexp_def)
    then have n: "- 1022 \<le> ilog2 y" using y by (simp add: bexp_def max_def split: if_splits)
    have "rd x \<le> 2 powi (bexp x + 1)" using assms(1) by (rule rd_upper)
    also have "\<dots> \<le> 2 powi (bexp y)"
      using lt by (intro power_int_increasing) simp_all
    also have "\<dots> \<le> rd y" using y n by (rule rd_lower)
    finally show ?thesis .
  qed
qed

lemma rd_mono: "0 \<le> x \<Longrightarrow> x \<le> y \<Longrightarrow> rd x \<le> rd y"
proof (cases "x = 0")
  case True
  assume "0 \<le> x" "x \<le> y"
  with True show ?thesis using rd_nonneg [of y] by (simp add: rd_def)
next
  case False
  assume "0 \<le> x" "x \<le> y"
  with False show ?thesis by (intro rd_mono_pos) simp_all
qed

lemma rd_error: "\<bar>rd x - x\<bar> \<le> ulp x / 2"
proof (cases "x = 0")
  case True
  then show ?thesis using ulp_pos [of x] by (simp add: rd_def)
next
  case False
  have "\<bar>of_int (rhe (x / ulp x)) - x / ulp x\<bar> \<le> 1 / 2" by (rule rhe_error)
  then have "\<bar>of_int (rhe (x / ulp x)) - x / ulp x\<bar> * ulp x \<le> 1 / 2 * ulp x"
    using ulp_pos [of x] by (intro mult_right_mono) simp_all
  moreover have "\<bar>of_int (rhe (x / ulp x)) - x / ulp x\<bar> * ulp x
      = \<bar>of_int (rhe (x / ulp x)) * ulp x - x\<bar>"
    using ulp_pos [of x] by (simp add: abs_mult_pos' [symmetric] field_simps del: abs_mult_pos')
  ultimately show ?thesis using False by (simp add: rd_pos_eq)
qed

section \<open>Facts about the time formatter\<close>

lemma rd_million: "rd 1000000 = 1000000" by code_simp

lemma trunc_nonneg: "0 \<le> x \<Longrightarrow> trunc x = \<lfloor>x\<rfloor>"
  by (simp add: trunc_def)

lemma microseconds_nonneg_eq:
  "0 \<le> sec \<Longrightarrow>
     microseconds sec = \<lfloor>sec\<rfloor> * 1000000 + rhe (rd ((sec - of_int \<lfloor>sec\<rfloor>) * 1000000))"
  by (simp add: microseconds_def trunc_nonneg Let_def)

lemma frac_micros_bounds:
  assumes "0 \<le> f" "f \<le> 1"
  shows "0 \<le> rhe (rd (f * 1000000)) \<and> rhe (rd (f * 1000000)) \<le> 1000000"
proof -
  from assms have a: "0 \<le> f * 1000000" "f * 1000000 \<le> 1000000" by simp_all
  from a(1) have "0 \<le> rd (f * 1000000)" by (rule rd_nonneg)
  then have lo: "0 \<le> rhe (rd (f * 1000000))" by (rule rhe_nonneg)
  from a have "rd (f * 1000000) \<le> rd 1000000" by (rule rd_mono)
  then have "rd (f * 1000000) \<le> of_int 1000000" by (simp add: rd_million)
  then have "rhe (rd (f * 1000000)) \<le> rhe (of_int 1000000)" by (rule rhe_mono)
  then have hi: "rhe (rd (f * 1000000)) \<le> 1000000" by (simp only: rhe_of_int)
  from lo hi show ?thesis by simp
qed

lemma frac_range: "0 \<le> x - of_int \<lfloor>x\<rfloor> \<and> x - of_int \<lfloor>x\<rfloor> \<le> (1::rat)"
  by linarith

lemma microseconds_nonneg: "0 \<le> sec \<Longrightarrow> 0 \<le> microseconds sec"
proof -
  assume s: "0 \<le> sec"
  then have "0 \<le> \<lfloor>sec\<rfloor>" by simp
  moreover have "0 \<le> rhe (rd ((sec - of_int \<lfloor>sec\<rfloor>) * 1000000))"
    using frac_micros_bounds frac_range by blast
  ultimately show ?thesis using s by (simp add: microseconds_nonneg_eq)
qed

lemma microseconds_mono:
  assumes "0 \<le> a" "a \<le> b"
  shows "microseconds a \<le> microseconds b"
proof -
  let ?fa = "a - of_int \<lfloor>a\<rfloor>" and ?fb = "b - of_int \<lfloor>b\<rfloor>"
  from assms have b: "0 \<le> b" by simp
  have fl: "\<lfloor>a\<rfloor> \<le> \<lfloor>b\<rfloor>" using assms(2) by (rule floor_mono)
  have ra: "0 \<le> rhe (rd (?fa * 1000000)) \<and> rhe (rd (?fa * 1000000)) \<le> 1000000"
    using frac_micros_bounds frac_range by blast
  have rb: "0 \<le> rhe (rd (?fb * 1000000)) \<and> rhe (rd (?fb * 1000000)) \<le> 1000000"
    using frac_micros_bounds frac_range by blast
  show ?thesis
  proof (cases "\<lfloor>a\<rfloor> = \<lfloor>b\<rfloor>")
    case True
    with assms(2) have "?fa * 1000000 \<le> ?fb * 1000000" by simp
    moreover have "0 \<le> ?fa * 1000000" using frac_range [of a] by simp
    ultimately have "rd (?fa * 1000000) \<le> rd (?fb * 1000000)" by (intro rd_mono)
    then have "rhe (rd (?fa * 1000000)) \<le> rhe (rd (?fb * 1000000))" by (rule rhe_mono)
    with True show ?thesis
      using assms(1) b by (simp add: microseconds_nonneg_eq)
  next
    case False
    with fl have "\<lfloor>a\<rfloor> + 1 \<le> \<lfloor>b\<rfloor>" by simp
    then have "(\<lfloor>a\<rfloor> + 1) * 1000000 \<le> \<lfloor>b\<rfloor> * 1000000" by simp
    with ra rb show ?thesis
      using assms(1) b by (simp add: microseconds_nonneg_eq algebra_simps)
  qed
qed

lemma total_ms_of_nonneg: "0 \<le> us \<Longrightarrow> 0 \<le> total_ms_of us"
proof -
  assume "0 \<le> us"
  then have "0 \<le> (of_int us :: rat) / 1000000" by simp
  then have "0 \<le> total_seconds us" unfolding total_seconds_def by (rule rd_nonneg)
  then have "0 \<le> total_seconds us * 1000" by simp
  then have "0 \<le> rd (total_seconds us * 1000)" by (rule rd_nonneg)
  then show ?thesis by (simp add: total_ms_of_def trunc_nonneg)
qed

lemma total_ms_of_mono:
  assumes "0 \<le> u" "u \<le> v"
  shows "total_ms_of u \<le> total_ms_of v"
proof -
  from assms have "0 \<le> (of_int u :: rat) / 1000000"
    "(of_int u :: rat) / 1000000 \<le> of_int v / 1000000"
    by (simp_all add: divide_right_mono)
  then have m: "total_seconds u \<le> total_seconds v"
    unfolding total_seconds_def by (rule rd_mono)
  from assms have "0 \<le> (of_int u :: rat) / 1000000" by simp
  then have n: "0 \<le> total_seconds u" unfolding total_seconds_def by (rule rd_nonneg)
  from m n have "0 \<le> total_seconds u * 1000" "total_seconds u * 1000 \<le> total_seconds v * 1000"
    by simp_all
  then have r: "rd (total_seconds u * 1000) \<le> rd (total_seconds v * 1000)" by (rule rd_mono)
  from n have "0 \<le> rd (total_seconds u * 1000)" by (intro rd_nonneg) simp
  with r have "0 \<le> rd (total_seconds v * 1000)" by simp
  with r \<open>0 \<le> rd (total_seconds u * 1000)\<close> show ?thesis
    by (simp add: total_ms_of_def trunc_nonneg floor_mono)
qed

lemma timedelta_Inr: "timedelta sec = Inr us \<Longrightarrow> us = microseconds sec"
  by (auto simp: timedelta_def Let_def split: if_splits)

lemma timedelta_smaller:
  assumes "0 \<le> a" "a \<le> b" "timedelta b = Inr ub"
  shows "timedelta a = Inr (microseconds a)"
proof -
  from assms(3) have ub: "ub = microseconds b" by (rule timedelta_Inr)
  from assms(3) have d: "\<bar>microseconds b div (86400 * 1000000)\<bar> \<le> 999999999"
    by (auto simp: timedelta_def Let_def split: if_splits)
  have n: "0 \<le> microseconds a" using assms(1) by (rule microseconds_nonneg)
  have m: "microseconds a \<le> microseconds b" using assms(1,2) by (rule microseconds_mono)
  from n have "0 \<le> microseconds a div (86400 * 1000000)" by simp
  moreover from m have "microseconds a div (86400 * 1000000) \<le> microseconds b div (86400 * 1000000)"
    by (simp add: zdiv_mono1)
  ultimately have "\<bar>microseconds a div (86400 * 1000000)\<bar> \<le> 999999999" using d by simp
  then show ?thesis by (simp add: timedelta_def Let_def)
qed

lemma lex_append_less:
  "length a = length b \<Longrightarrow> a < b \<Longrightarrow> a @ x < b @ (y :: nat list)"
  by (induction a b rule: list_induct2) auto

lemma lex_append_same_less: "a @ x < a @ y \<longleftrightarrow> x < (y :: nat list)"
  by (induction a) auto

lemma lex_append_same_le: "a @ x \<le> a @ y \<longleftrightarrow> x \<le> (y :: nat list)"
  by (induction a) auto

lemma lex_append_le:
  "length a = length b \<Longrightarrow> a < b \<or> a = b \<and> x \<le> y \<Longrightarrow> a @ x \<le> b @ (y :: nat list)"
  using lex_append_less [of a b x y] lex_append_same_le [of a x y] by auto

lemma length_digits_w: "length (digits_w k n) = k"
  by (induction k arbitrary: n) simp_all

lemma digits_w_zero: "digits_w k 0 = replicate k 48"
  by (induction k) (simp_all add: replicate_append_same)

lemma dec_small: "n < 10 \<Longrightarrow> dec n = [nat (48 + n)]"
  by (simp add: dec.simps)

lemma dec_large: "\<not> n < 10 \<Longrightarrow> dec n = dec (n div 10) @ [nat (48 + n mod 10)]"
  by (subst dec.simps) simp

lemma length_dec_pos: "0 < length (dec n)"
  by (cases "n < 10") (simp_all add: dec_small dec_large)

lemma dec_digits_w:
  "0 \<le> n \<Longrightarrow> length (dec n) \<le> k \<Longrightarrow>
     replicate (k - length (dec n)) 48 @ dec n = digits_w k n"
proof (induction k arbitrary: n)
  case 0
  then show ?case using length_dec_pos [of n] by simp
next
  case (Suc k)
  show ?case
  proof (cases "n < 10")
    case True
    with Suc.prems have "n div 10 = 0" "n mod 10 = n" by simp_all
    with True show ?thesis by (simp add: dec_small digits_w_zero)
  next
    case False
    with Suc.prems have l: "length (dec (n div 10)) \<le> k" and n: "0 \<le> n div 10"
      by (simp_all add: dec_large)
    from Suc.IH [OF n l] False show ?thesis
      by (simp add: dec_large Suc_diff_le l)
  qed
qed

lemma dec_bound: "0 \<le> n \<Longrightarrow> n < 10 ^ length (dec n)"
proof (induction n rule: dec.induct)
  case (1 n)
  show ?case
  proof (cases "n < 10")
    case True
    then show ?thesis by (simp add: dec_small)
  next
    case False
    with 1 have "n div 10 < 10 ^ length (dec (n div 10))" by simp
    then have "n < 10 * 10 ^ length (dec (n div 10))" by linarith
    with False show ?thesis by (simp add: dec_large)
  qed
qed

lemma length_dec_le: "0 \<le> n \<Longrightarrow> n < 10 ^ k \<Longrightarrow> 0 < k \<Longrightarrow> length (dec n) \<le> k"
proof (induction k arbitrary: n)
  case 0
  then show ?case by simp
next
  case (Suc k)
  show ?case
  proof (cases "n < 10")
    case True
    then show ?thesis by (simp add: dec_small)
  next
    case False
    with Suc.prems have k: "0 < k" by (cases k) simp_all
    from Suc.prems have "n div 10 < 10 ^ k" "0 \<le> n div 10" by simp_all
    from Suc.IH [OF this(2) this(1) k] False show ?thesis by (simp add: dec_large)
  qed
qed

lemma digits_w_less:
  "0 \<le> a \<Longrightarrow> a < b \<Longrightarrow> b < 10 ^ k \<Longrightarrow> digits_w k a < digits_w k b"
proof (induction k arbitrary: a b)
  case 0
  then show ?case by simp
next
  case (Suc k)
  from Suc.prems have d: "a div 10 \<le> b div 10" "0 \<le> a div 10" "b div 10 < 10 ^ k"
    by (simp_all add: zdiv_mono1)
  show ?case
  proof (cases "a div 10 = b div 10")
    case True
    with Suc.prems have "a mod 10 < b mod 10"
      by (metis add_less_cancel_left mult_div_mod_eq)
    moreover have "0 \<le> a mod 10" by simp
    ultimately have "[nat (48 + a mod 10)] < [nat (48 + b mod 10)]" by simp
    with True show ?thesis by (simp add: lex_append_same_less)
  next
    case False
    with d have "a div 10 < b div 10" by simp
    from Suc.IH [OF d(2) this d(3)] show ?thesis
      by (simp add: lex_append_less length_digits_w)
  qed
qed

lemma digits_w_le:
  "0 \<le> a \<Longrightarrow> a \<le> b \<Longrightarrow> b < 10 ^ k \<Longrightarrow> digits_w k a \<le> digits_w k b"
  using digits_w_less [of a b k] by (cases "a = b") auto

lemma fmt_d_nonneg: "0 \<le> n \<Longrightarrow> fmt_d w n = replicate (w - length (dec n)) 48 @ dec n"
  by (simp add: fmt_d_def Let_def)

lemma fmt_d_digits_w:
  assumes "0 \<le> n"
  shows "fmt_d w n = digits_w (length (fmt_d w n)) n"
proof -
  define l where "l = length (dec n)"
  define L where "L = (w - l) + l"
  have e: "fmt_d w n = replicate (w - l) 48 @ dec n"
    using assms by (simp add: fmt_d_nonneg l_def)
  have len: "length (fmt_d w n) = L"
    unfolding e by (simp add: L_def l_def)
  have "l \<le> L" by (simp add: L_def)
  then have "replicate (L - l) 48 @ dec n = digits_w L n"
    unfolding l_def by (intro dec_digits_w assms)
  moreover have "L - l = w - l" by (simp add: L_def)
  ultimately have "replicate (w - l) 48 @ dec n = digits_w L n" by simp
  with e have "fmt_d w n = digits_w L n" by simp
  then show ?thesis by (simp add: length_digits_w)
qed

lemma fmt_d_fixed:
  "0 \<le> n \<Longrightarrow> n < 10 ^ w \<Longrightarrow> 0 < w \<Longrightarrow> fmt_d w n = digits_w w n"
  using dec_digits_w [of n w] length_dec_le [of n w] by (simp add: fmt_d_nonneg)

lemma fmt_d_less:
  assumes "0 \<le> a" "a < b" "length (fmt_d w a) = length (fmt_d w b)"
  shows "fmt_d w a < fmt_d w b"
proof -
  let ?L = "length (fmt_d w b)"
  from assms have b: "0 \<le> b" by simp
  have "length (dec b) \<le> ?L" using b by (simp add: fmt_d_nonneg)
  then have "(10::int) ^ length (dec b) \<le> 10 ^ ?L" by (intro power_increasing) simp_all
  with dec_bound [OF b] have "b < 10 ^ ?L" by (rule less_le_trans)
  from digits_w_less [OF assms(1,2) this] show ?thesis
    using fmt_d_digits_w [OF assms(1), of w] fmt_d_digits_w [OF b, of w] assms(3) by simp
qed

lemma div_mod_lex:
  fixes x y n :: int
  assumes "x \<le> y" "0 < n"
  shows "x div n < y div n \<or> (x div n = y div n \<and> x mod n \<le> y mod n)"
proof (cases "x div n = y div n")
  case True
  have "x = n * (x div n) + x mod n" "y = n * (y div n) + y mod n" by simp_all
  with True assms(1) have "x mod n \<le> y mod n" by (metis add_le_cancel_left)
  with True show ?thesis by simp
next
  case False
  moreover from assms have "x div n \<le> y div n" by (simp add: zdiv_mono1)
  ultimately show ?thesis by simp
qed

lemma field_le:
  assumes "0 \<le> a" "a \<le> b" "b < 10 ^ k" "a = b \<longrightarrow> x \<le> y"
  shows "digits_w k a @ x \<le> digits_w k b @ y"
proof (cases "a = b")
  case True
  with assms(4) show ?thesis by (simp add: lex_append_same_le)
next
  case False
  with assms have "digits_w k a < digits_w k b" by (intro digits_w_less) simp_all
  then show ?thesis by (intro lex_append_le) (simp_all add: length_digits_w)
qed

lemma fmt_ms_fields:
  assumes "0 \<le> t"
  shows "fmt_ms t =
     fmt_d 2 (t div 1000 div 60 div 60)
       @ 58 # digits_w 2 (t div 1000 div 60 mod 60)
       @ 58 # digits_w 2 (t div 1000 mod 60)
       @ 44 # digits_w 3 (t mod 1000)"
proof -
  have a: "t div 60000 = t div 1000 div 60"
    using zdiv_zmult2_eq [of 60 t 1000] by simp
  have b: "t div 3600000 = t div 1000 div 60 div 60"
    using zdiv_zmult2_eq [of 60 t 60000] a by simp
  have m: "fmt_d 2 (t div 1000 div 60 mod 60) = digits_w 2 (t div 1000 div 60 mod 60)"
    by (intro fmt_d_fixed) simp_all
  have s: "fmt_d 2 (t div 1000 mod 60) = digits_w 2 (t div 1000 mod 60)"
    by (intro fmt_d_fixed) simp_all
  have ms: "fmt_d 3 (t mod 1000) = digits_w 3 (t mod 1000)"
    by (intro fmt_d_fixed) simp_all
  show ?thesis
    unfolding fmt_ms_def Let_def a b m s ms by (simp add: str_def)
qed

lemma length_fmt_ms:
  "0 \<le> t \<Longrightarrow> length (fmt_ms t) = length (fmt_d 2 (t div 1000 div 60 div 60)) + 10"
  by (simp add: fmt_ms_fields length_digits_w)

lemma fmt_ms_mono:
  assumes "0 \<le> t1" "t1 \<le> t2" "length (fmt_ms t1) = length (fmt_ms t2)"
  shows "fmt_ms t1 \<le> fmt_ms t2"
proof -
  from assms have t2: "0 \<le> t2" by simp
  define A1 where "A1 = t1 div 1000"
  define A2 where "A2 = t2 div 1000"
  define B1 where "B1 = A1 div 60"
  define B2 where "B2 = A2 div 60"
  have A: "A1 < A2 \<or> (A1 = A2 \<and> t1 mod 1000 \<le> t2 mod 1000)"
    unfolding A1_def A2_def using assms(2) by (intro div_mod_lex) simp_all
  then have Ale: "A1 \<le> A2" by auto
  have B: "B1 < B2 \<or> (B1 = B2 \<and> A1 mod 60 \<le> A2 mod 60)"
    unfolding B1_def B2_def using Ale by (intro div_mod_lex) simp_all
  then have Ble: "B1 \<le> B2" by auto
  have H: "B1 div 60 < B2 div 60 \<or> (B1 div 60 = B2 div 60 \<and> B1 mod 60 \<le> B2 mod 60)"
    using Ble by (intro div_mod_lex) simp_all
  have nn: "0 \<le> A1" "0 \<le> B1" "0 \<le> B1 div 60"
    using assms(1) by (simp_all add: A1_def B1_def)
  have Beq: "B1 div 60 = B2 div 60 \<Longrightarrow> B1 mod 60 = B2 mod 60 \<Longrightarrow> B1 = B2"
    by (metis mult_div_mod_eq)
  have Aeq: "B1 = B2 \<Longrightarrow> A1 mod 60 = A2 mod 60 \<Longrightarrow> A1 = A2"
    unfolding B1_def B2_def by (metis mult_div_mod_eq)
  have f1: "fmt_ms t1 = fmt_d 2 (B1 div 60) @ 58 # digits_w 2 (B1 mod 60)
       @ 58 # digits_w 2 (A1 mod 60) @ 44 # digits_w 3 (t1 mod 1000)"
    using fmt_ms_fields [OF assms(1)] by (simp add: A1_def B1_def)
  have f2: "fmt_ms t2 = fmt_d 2 (B2 div 60) @ 58 # digits_w 2 (B2 mod 60)
       @ 58 # digits_w 2 (A2 mod 60) @ 44 # digits_w 3 (t2 mod 1000)"
    using fmt_ms_fields [OF t2] by (simp add: A2_def B2_def)
  from assms(3) have len: "length (fmt_d 2 (B1 div 60)) = length (fmt_d 2 (B2 div 60))"
    by (simp add: f1 f2 length_digits_w)
  show ?thesis
  proof (cases "B1 div 60 = B2 div 60")
    case False
    with H have "B1 div 60 < B2 div 60" by simp
    from fmt_d_less [OF nn(3) this len] show ?thesis
      unfolding f1 f2 using len by (intro lex_append_le) simp_all
  next
    case True
    with H have m: "B1 mod 60 \<le> B2 mod 60" by simp
    have ms: "B1 mod 60 = B2 mod 60 \<Longrightarrow> A1 mod 60 = A2 mod 60 \<Longrightarrow>
        t1 mod 1000 \<le> t2 mod 1000"
      using Beq [OF True] Aeq A by auto
    have s: "B1 mod 60 = B2 mod 60 \<Longrightarrow> A1 mod 60 \<le> A2 mod 60"
      using Beq [OF True] B by auto
    have last: "B1 mod 60 = B2 mod 60 \<Longrightarrow> A1 mod 60 = A2 mod 60 \<Longrightarrow>
        digits_w 3 (t1 mod 1000) \<le> digits_w 3 (t2 mod 1000)"
      using ms by (intro digits_w_le) simp_all
    have secs: "B1 mod 60 = B2 mod 60 \<Longrightarrow>
        digits_w 2 (A1 mod 60) @ 44 # digits_w 3 (t1 mod 1000)
          \<le> digits_w 2 (A2 mod 60) @ 44 # digits_w 3 (t2 mod 1000)"
      using s last by (intro field_le) simp_all
    have mins: "digits_w 2 (B1 mod 60) @ 58 # digits_w 2 (A1 mod 60) @ 44 # digits_w 3 (t1 mod 1000)
          \<le> digits_w 2 (B2 mod 60) @ 58 # digits_w 2 (A2 mod 60) @ 44 # digits_w 3 (t2 mod 1000)"
      using m secs by (intro field_le) simp_all
    show ?thesis
      unfolding f1 f2 True using mins by (simp add: lex_append_same_le)
  qed
qed

lemma fmt_time_Inr:
  "fmt_time sec = Inr s \<longleftrightarrow>
     (timedelta sec = Inr (microseconds sec) \<and> s = fmt_ms (total_ms_of (microseconds sec)))"
  by (auto simp: fmt_time_def split: sum.splits dest: timedelta_Inr)

lemma timedelta_100h: "timedelta 359999 = Inr 359999000000" by code_simp

lemma total_ms_100h: "total_ms_of 359999000000 = 359999000" by code_simp

lemma fmt_time_below_100h:
  assumes "0 \<le> sec" "sec \<le> 359999"
  shows "\<exists>s. fmt_time sec = Inr s \<and> length s = 12"
proof -
  from timedelta_smaller [OF assms timedelta_100h]
  have td: "timedelta sec = Inr (microseconds sec)" .
  have "microseconds sec \<le> microseconds 359999" using assms by (rule microseconds_mono)
  also have "microseconds 359999 = 359999000000"
    using timedelta_Inr [OF timedelta_100h] by simp
  finally have u: "microseconds sec \<le> 359999000000" .
  have n: "0 \<le> microseconds sec" using assms(1) by (rule microseconds_nonneg)
  define t where "t = total_ms_of (microseconds sec)"
  have t0: "0 \<le> t" unfolding t_def using n by (rule total_ms_of_nonneg)
  have "t \<le> total_ms_of 359999000000" unfolding t_def using n u by (rule total_ms_of_mono)
  then have t1: "t \<le> 359999000" by (simp add: total_ms_100h)
  from t0 t1 have h: "0 \<le> t div 1000 div 60 div 60" "t div 1000 div 60 div 60 < 10 ^ 2"
    by simp_all
  have "fmt_d 2 (t div 1000 div 60 div 60) = digits_w 2 (t div 1000 div 60 div 60)"
    using h by (intro fmt_d_fixed) simp_all
  then have "length (fmt_ms t) = 12" using t0 by (simp add: length_fmt_ms length_digits_w)
  with td show ?thesis by (simp add: fmt_time_Inr t_def)
qed

lemma fmt_time_mono:
  assumes "0 \<le> a" "a < b" "fmt_time a = Inr sa" "fmt_time b = Inr sb" "length sa = length sb"
  shows "sa \<le> sb"
proof -
  from assms(3) have sa: "sa = fmt_ms (total_ms_of (microseconds a))"
    unfolding fmt_time_Inr by simp
  from assms(4) have sb: "sb = fmt_ms (total_ms_of (microseconds b))"
    unfolding fmt_time_Inr by simp
  have n: "0 \<le> microseconds a" using assms(1) by (rule microseconds_nonneg)
  from assms(2) have "a \<le> b" by simp
  with assms(1) have m: "microseconds a \<le> microseconds b" by (rule microseconds_mono)
  have t0: "0 \<le> total_ms_of (microseconds a)" using n by (rule total_ms_of_nonneg)
  have t1: "total_ms_of (microseconds a) \<le> total_ms_of (microseconds b)"
    using n m by (rule total_ms_of_mono)
  from assms(5) have l: "length (fmt_ms (total_ms_of (microseconds a)))
      = length (fmt_ms (total_ms_of (microseconds b)))"
    unfolding sa sb .
  show ?thesis unfolding sa sb using t0 t1 l by (rule fmt_ms_mono)
qed

lemma fmt_time_smaller:
  assumes "0 \<le> a" "a < b" "fmt_time b = Inr sb"
  shows "\<exists>s. fmt_time a = Inr s"
proof -
  from assms(3) have "timedelta b = Inr (microseconds b)" unfolding fmt_time_Inr by simp
  moreover from assms(2) have "a \<le> b" by simp
  ultimately have "timedelta a = Inr (microseconds a)"
    using assms(1) by (intro timedelta_smaller)
  then show ?thesis unfolding fmt_time_Inr by simp
qed

lemma fmt_time_mono_below_100h:
  assumes "0 \<le> a" "a < b" "b \<le> 359999"
  shows "\<exists>s s'. fmt_time a = Inr s \<and> fmt_time b = Inr s' \<and> length s = 12
      \<and> length s' = 12 \<and> s \<le> s'"
proof -
  from assms have b: "0 \<le> b" and a: "a \<le> 359999" by simp_all
  from fmt_time_below_100h [OF assms(1) a] obtain s where
    s: "fmt_time a = Inr s" "length s = 12" by blast
  from fmt_time_below_100h [OF b assms(3)] obtain s' where
    s': "fmt_time b = Inr s'" "length s' = 12" by blast
  from s(2) s'(2) have "length s = length s'" by simp
  from fmt_time_mono [OF assms(1,2) s(1) s'(1) this] s s' show ?thesis by blast
qed

section \<open>Facts about the subtitle writer\<close>

lemma fmt_time_ok: "timedelta_ok sec \<Longrightarrow> \<exists>s. fmt_time sec = Inr s"
  by (auto simp: timedelta_ok_def fmt_time_def split: sum.splits)

lemma fmt_time_Inr_ok: "fmt_time sec = Inr s \<Longrightarrow> timedelta_ok sec"
  by (auto simp: timedelta_ok_def fmt_time_def split: sum.splits)

lemma write_entry_Inr:
  "write_entry idx s e text = Inr r \<longleftrightarrow>
     (\<exists>start end'. fmt_time s = Inr start \<and> fmt_time e = Inr end'
        \<and> r = srt_record idx start end' text)"
  by (auto simp: write_entry_def split: sum.splits)

lemma write_entry_Inl:
  "write_entry idx s e text = Inl err \<Longrightarrow> \<not> timedelta_ok s \<or> \<not> timedelta_ok e"
  by (auto simp: write_entry_def timedelta_ok_def fmt_time_def split: sum.splits)

lemma write_srt_loop_Inr:
  "write_srt_loop is blocks clips = Inr rs \<Longrightarrow>
     length rs = length is \<and>
     (\<forall>k<length is. write_entry (is ! k + 1) (c_start (clips ! (is ! k)))
        (c_end (clips ! (is ! k))) (blocks ! (is ! k)) = Inr (rs ! k))"
proof (induction "is" arbitrary: rs)
  case Nil
  then show ?case by simp
next
  case (Cons i "is")
  from Cons.prems obtain r rs' where
    r: "write_entry (i + 1) (c_start (clips ! i)) (c_end (clips ! i)) (blocks ! i) = Inr r" and
    rs': "write_srt_loop is blocks clips = Inr rs'" and rs: "rs = r # rs'"
    by (auto split: sum.splits)
  from Cons.IH [OF rs'] r rs show ?case
    by (auto simp: nth_Cons split: nat.splits)
qed

lemma write_srt_loop_Inl:
  "write_srt_loop is blocks clips = Inl err \<Longrightarrow>
     \<exists>i \<in> set is. \<not> timedelta_ok (c_start (clips ! i)) \<or> \<not> timedelta_ok (c_end (clips ! i))"
proof (induction "is")
  case Nil
  then show ?case by simp
next
  case (Cons i "is")
  then show ?case
    by (auto split: sum.splits dest: write_entry_Inl)
qed

lemma write_srt_Inl:
  assumes "write_srt blocks clips out_path fs = Inl err"
  shows "\<not> wfile fs out_path
     \<or> (\<exists>i<min (length blocks) (length clips).
           \<not> timedelta_ok (c_start (clips ! i)) \<or> \<not> timedelta_ok (c_end (clips ! i)))"
proof (cases "wfile fs out_path")
  case False
  then show ?thesis by simp
next
  case True
  with assms obtain e where
    "write_srt_loop [0..<min (length blocks) (length clips)] blocks clips = Inl e"
    by (auto simp: write_srt_def Let_def split: sum.splits)
  from write_srt_loop_Inl [OF this] show ?thesis by auto
qed

section \<open>Facts about the mixed loop\<close>

lemma mixed_step_own:
  "takes_own_text it \<Longrightarrow>
     mixed_step mb st it =
       st\<lparr>entries := entries st
            @ [(m_start it, m_end it,
                strip (case m_api_text it of None \<Rightarrow> [] | Some s \<Rightarrow> s))]\<rparr>"
  by (simp add: mixed_step_def takes_own_text_def)

lemma mixed_step_manual:
  "\<not> takes_own_text it \<Longrightarrow> manual_idx st < length mb \<Longrightarrow>
     mixed_step mb st it =
       st\<lparr>manual_idx := manual_idx st + 1, used_manual := used_manual st + 1,
          entries := entries st @ [(m_start it, m_end it, strip (mb ! manual_idx st))]\<rparr>"
  by (auto simp: mixed_step_def takes_own_text_def)

lemma mixed_step_empty:
  "\<not> takes_own_text it \<Longrightarrow> \<not> manual_idx st < length mb \<Longrightarrow>
     mixed_step mb st it = st\<lparr>entries := entries st @ [(m_start it, m_end it, [])]\<rparr>"
  by (auto simp: mixed_step_def takes_own_text_def)

lemma mixed_loop_snoc:
  "mixed_loop mb (items @ [it]) = mixed_step mb (mixed_loop mb items) it"
  by (simp add: mixed_loop_def)

lemma consumed_before_length:
  "consumed_before items (length items) = length (filter (\<lambda>it. \<not> takes_own_text it) items)"
  by (simp add: consumed_before_def)

lemma consumed_before_snoc:
  "j \<le> length items \<Longrightarrow> consumed_before (items @ [it]) j = consumed_before items j"
  by (simp add: consumed_before_def)

lemma entry_text_snoc:
  "j < length items \<Longrightarrow> entry_text mb (items @ [it]) j = entry_text mb items j"
  by (simp add: entry_text_def consumed_before_snoc nth_append)

lemma mixed_loop_state:
  "manual_idx (mixed_loop mb items)
     = min (length (filter (\<lambda>it. \<not> takes_own_text it) items)) (length mb)
   \<and> used_manual (mixed_loop mb items) = manual_idx (mixed_loop mb items)
   \<and> length (entries (mixed_loop mb items)) = length items
   \<and> (\<forall>j<length items. entries (mixed_loop mb items) ! j
         = (m_start (items ! j), m_end (items ! j), entry_text mb items j))"
proof (induction items rule: rev_induct)
  case Nil
  show ?case by (simp add: mixed_loop_def)
next
  case (snoc it items)
  let ?st = "mixed_loop mb items"
  let ?c = "length (filter (\<lambda>it. \<not> takes_own_text it) items)"
  from snoc have
    idx: "manual_idx ?st = min ?c (length mb)" and
    used: "used_manual ?st = manual_idx ?st" and
    len: "length (entries ?st) = length items" and
    nth: "\<forall>j<length items. entries ?st ! j
            = (m_start (items ! j), m_end (items ! j), entry_text mb items j)"
    by auto
  have last_text: "entry_text mb (items @ [it]) (length items) =
     (if takes_own_text it
      then strip (case m_api_text it of None \<Rightarrow> [] | Some s \<Rightarrow> s)
      else if ?c < length mb then strip (mb ! ?c) else [])"
    by (simp add: entry_text_def consumed_before_snoc consumed_before_length)
  have old: "\<And>j. j < length items \<Longrightarrow>
      (entries ?st @ [e]) ! j
        = (m_start ((items @ [it]) ! j), m_end ((items @ [it]) ! j),
           entry_text mb (items @ [it]) j)" for e
    using nth len by (simp add: nth_append entry_text_snoc)
  show ?case
  proof (cases "takes_own_text it")
    case True
    have st: "mixed_loop mb (items @ [it]) =
       ?st\<lparr>entries := entries ?st
            @ [(m_start it, m_end it,
                strip (case m_api_text it of None \<Rightarrow> [] | Some s \<Rightarrow> s))]\<rparr>"
      by (simp add: mixed_loop_snoc mixed_step_own [OF True])
    show ?thesis
      unfolding st using True idx used len old last_text
      by (auto simp: less_Suc_eq nth_append)
  next
    case False
    show ?thesis
    proof (cases "manual_idx ?st < length mb")
      case True
      with idx have c: "?c < length mb" "manual_idx ?st = ?c" by auto
      have st: "mixed_loop mb (items @ [it]) =
         ?st\<lparr>manual_idx := manual_idx ?st + 1, used_manual := used_manual ?st + 1,
            entries := entries ?st @ [(m_start it, m_end it, strip (mb ! manual_idx ?st))]\<rparr>"
        by (simp add: mixed_loop_snoc mixed_step_manual [OF False True])
      show ?thesis
        unfolding st using False c used len old last_text
        by (auto simp: less_Suc_eq nth_append)
    next
      case nomore: False
      with idx have c: "\<not> ?c < length mb" "manual_idx ?st = length mb" by auto
      have st: "mixed_loop mb (items @ [it]) =
         ?st\<lparr>entries := entries ?st @ [(m_start it, m_end it, [])]\<rparr>"
        by (simp add: mixed_loop_snoc mixed_step_empty [OF False nomore])
      show ?thesis
        unfolding st using False c used len old last_text
        by (auto simp: less_Suc_eq nth_append)
    qed
  qed
qed




section \<open>Evaluations used by the examples\<close>

lemma fmt_time_0: "fmt_time 0 = Inr (str ''00:00:00,000'')" by code_simp
lemma fmt_time_2: "fmt_time 2 = Inr (str ''00:00:02,000'')" by code_simp
lemma fmt_time_5: "fmt_time 5 = Inr (str ''00:00:05,000'')" by code_simp
lemma fmt_time_5_5: "fmt_time (11 / 2) = Inr (str ''00:00:05,500'')" by code_simp

lemma pyint_small:
  "pyint 1 = str ''1''" "pyint 2 = str ''2''" "pyint 3 = str ''3''" "pyint 5 = str ''5''"
  by (simp_all add: pyint_def dec.simps str_def)

section \<open>How far the formatter is from the floor\<close>

lemma ilog2_less:
  assumes "0 < y" "y < 2 powi k"
  shows "ilog2 y < k"
proof (rule ccontr)
  assume "\<not> ilog2 y < k"
  then have "k \<le> ilog2 y" by simp
  then have "(2::rat) powi k \<le> 2 powi (ilog2 y)" by (intro power_int_increasing) simp_all
  with ilog2_bounds [OF assms(1)] assms(2) show False by linarith
qed

lemma rd_abs_error:
  assumes "0 \<le> y" "y < 2 powi k" "- 1021 \<le> k"
  shows "\<bar>rd y - y\<bar> \<le> 2 powi (k - 54)"
proof (cases "y = 0")
  case True
  then show ?thesis by (simp add: rd_def)
next
  case False
  with assms have y: "0 < y" by simp
  from ilog2_less [OF y assms(2)] assms(3) y have "bexp y \<le> k - 1"
    by (simp add: bexp_def)
  then have "ulp y \<le> 2 powi (k - 1 - 52)"
    unfolding ulp_bexp by (intro power_int_increasing) simp_all
  moreover have "(2::rat) powi (k - 1 - 52) = 2 powi (k - 54) * 2"
    using power_int_add [of "2::rat" "k - 54" 1] by simp
  ultimately have "ulp y / 2 \<le> 2 powi (k - 54)" by simp
  with rd_error [of y] show ?thesis by linarith
qed

lemma microseconds_close:
  assumes "0 \<le> sec"
  shows "\<bar>of_int (microseconds sec) - sec * 1000000\<bar> \<le> 1 / 2 + 1 / 2 ^ 34"
proof -
  define y where "y = (sec - of_int \<lfloor>sec\<rfloor>) * 1000000"
  have f: "0 \<le> sec - of_int \<lfloor>sec\<rfloor>" "sec - of_int \<lfloor>sec\<rfloor> < 1" by linarith+
  then have y: "0 \<le> y" "y < 2 powi 20" by (simp_all add: y_def)
  from rd_abs_error [OF y] have e1: "\<bar>rd y - y\<bar> \<le> 1 / 2 ^ 34"
    by (simp add: power_int_minus_divide)
  have e2: "\<bar>of_int (rhe (rd y)) - rd y\<bar> \<le> 1 / 2" by (rule rhe_error)
  have "of_int (microseconds sec) - sec * 1000000 = of_int (rhe (rd y)) - y"
    using assms by (simp add: microseconds_nonneg_eq y_def algebra_simps)
  with e1 e2 show ?thesis by linarith
qed

lemma product_close:
  assumes "0 \<le> us" "us \<le> 1000000000000000"
  shows "\<bar>rd (total_seconds us * 1000) - of_int us / 1000\<bar> < 1 / 1000"
proof -
  define a :: rat where "a = of_int us / 1000000"
  define b where "b = total_seconds us"
  have a: "0 \<le> a" "a \<le> 1000000000" using assms by (simp_all add: a_def)
  then have "a < 2 powi 30" by simp
  from rd_abs_error [OF a(1) this] have e1: "\<bar>b - a\<bar> \<le> 1 / 2 ^ 24"
    by (simp add: b_def total_seconds_def a_def power_int_minus_divide)
  have b0: "0 \<le> b" unfolding b_def total_seconds_def using a(1) unfolding a_def by (rule rd_nonneg)
  from e1 a have "b \<le> 1000000000 + 1 / 2 ^ 24" by linarith
  then have c: "0 \<le> b * 1000" "b * 1000 < 2 powi 40" using b0 by simp_all
  from rd_abs_error [OF c] have e2: "\<bar>rd (b * 1000) - b * 1000\<bar> \<le> 1 / 16384"
    by (simp add: power_int_minus_divide)
  have u: "of_int us / 1000 = a * 1000" by (simp add: a_def)
  from e1 have "\<bar>b - a\<bar> \<le> 1 / 16777216" by simp
  then have "\<bar>b * 1000 - a * 1000\<bar> \<le> 1000 / 16777216" by linarith
  with e2 have "\<bar>rd (b * 1000) - a * 1000\<bar> < 1 / 1000" by linarith
  then show ?thesis unfolding u b_def .
qed

lemma total_ms_of_div:
  assumes "0 \<le> us" "us \<le> 1000000000000000"
  shows "us div 1000 - 1 \<le> total_ms_of us \<and> total_ms_of us \<le> us div 1000
     \<and> (us mod 1000 \<noteq> 0 \<longrightarrow> total_ms_of us = us div 1000)"
proof -
  define d where "d = rd (total_seconds us * 1000)"
  define q where "q = us div 1000"
  define r where "r = us mod 1000"
  have us: "us = q * 1000 + r" and r: "0 \<le> r" "r < 1000"
    by (simp_all add: q_def r_def)
  then have U: "(of_int us :: rat) / 1000 = of_int q + of_int r / 1000" by simp
  have close: "\<bar>d - of_int us / 1000\<bar> < 1 / 1000"
    unfolding d_def using assms by (rule product_close)
  from assms(1) have "0 \<le> total_seconds us * 1000"
    unfolding total_seconds_def by (simp add: rd_nonneg)
  then have d0: "0 \<le> d" unfolding d_def by (rule rd_nonneg)
  then have t: "total_ms_of us = \<lfloor>d\<rfloor>" by (simp add: total_ms_of_def d_def trunc_nonneg)
  from r have rr: "(0::rat) \<le> of_int r" "(of_int r :: rat) \<le> 999" by simp_all
  from close have close': "\<bar>d - (of_int q + of_int r / 1000)\<bar> < 1 / 1000"
    unfolding U .
  from close' rr have "d < of_int q + 1" by linarith
  then have "d < of_int (q + 1)" by simp
  then have "\<lfloor>d\<rfloor> < q + 1" by (simp only: floor_less_iff)
  then have hi: "\<lfloor>d\<rfloor> \<le> q" by simp
  from close' rr have "of_int q - 1 \<le> d" by linarith
  then have "of_int (q - 1) \<le> d" by simp
  then have lo: "q - 1 \<le> \<lfloor>d\<rfloor>" by (simp only: le_floor_iff)
  have ex: "\<lfloor>d\<rfloor> = q" if "r \<noteq> 0"
  proof -
    from that r have "1 \<le> r" by simp
    then have "(1::rat) \<le> of_int r" by simp
    with close' have "of_int q \<le> d" by linarith
    then have "q \<le> \<lfloor>d\<rfloor>" by (simp only: le_floor_iff)
    with hi show ?thesis by simp
  qed
  from hi lo ex show ?thesis by (simp add: t q_def r_def)
qed

lemma timedelta_1e9: "timedelta 1000000000 = Inr 1000000000000000" by code_simp

lemma microseconds_le_1e15:
  assumes "0 \<le> sec" "sec \<le> 1000000000"
  shows "microseconds sec \<le> 1000000000000000"
proof -
  have "microseconds sec \<le> microseconds 1000000000" using assms by (rule microseconds_mono)
  then show ?thesis using timedelta_Inr [OF timedelta_1e9] by simp
qed

lemma total_ms_near_floor:
  assumes "0 \<le> sec" "sec \<le> 1000000000"
  shows "\<lfloor>sec * 1000\<rfloor> - 1 \<le> total_ms_of (microseconds sec)
     \<and> total_ms_of (microseconds sec) \<le> \<lfloor>sec * 1000\<rfloor> + 1"
proof -
  define us where "us = microseconds sec"
  define t where "t = total_ms_of us"
  define q where "q = us div 1000"
  define r where "r = us mod 1000"
  define F where "F = \<lfloor>sec * 1000\<rfloor>"
  have us0: "0 \<le> us" unfolding us_def using assms(1) by (rule microseconds_nonneg)
  have us1: "us \<le> 1000000000000000" unfolding us_def using assms by (rule microseconds_le_1e15)
  from total_ms_of_div [OF us0 us1] have
    lo: "q - 1 \<le> t" and hi: "t \<le> q" and ex: "r \<noteq> 0 \<Longrightarrow> t = q"
    by (simp_all add: t_def q_def r_def)
  have usqr: "us = q * 1000 + r" and r: "0 \<le> r" "r < 1000"
    by (simp_all add: q_def r_def)
  then have U: "(of_int us :: rat) = of_int q * 1000 + of_int r" by simp
  from r have rr: "(0::rat) \<le> of_int r" "(of_int r :: rat) \<le> 999" by simp_all
  from microseconds_close [OF assms(1)]
  have "\<bar>of_int us - sec * 1000000\<bar> \<le> 1 / 2 + 1 / 17179869184"
    by (simp add: us_def)
  then have c: "\<bar>of_int q * 1000 + of_int r - sec * 1000000\<bar> \<le> 1 / 2 + 1 / 17179869184"
    unfolding U .
  have F: "of_int F \<le> sec * 1000" "sec * 1000 < of_int F + 1"
    unfolding F_def by linarith+
  from hi have "(of_int t :: rat) \<le> of_int q" by simp
  with c rr F have "(of_int t :: rat) < of_int F + 2" by linarith
  then have "(of_int t :: rat) < of_int (F + 2)" by simp
  then have "t < F + 2" by (simp only: of_int_less_iff)
  then have upper: "t \<le> F + 1" by simp
  have lower: "F - 1 \<le> t"
  proof (cases "r = 0")
    case True
    from lo have "(of_int q :: rat) - 1 \<le> of_int t" using of_int_le_iff [of "q - 1" t, where ?'a = rat]
      by simp
    moreover from True have "(of_int r :: rat) = 0" by simp
    ultimately have "(of_int F :: rat) - 2 < of_int t" using c F by linarith
    then have "(of_int (F - 2) :: rat) < of_int t" by simp
    then have "F - 2 < t" by (simp only: of_int_less_iff)
    then show ?thesis by simp
  next
    case False
    with ex have "(of_int t :: rat) = of_int q" by simp
    with c rr F have "(of_int F :: rat) - 1 < of_int t" by linarith
    then have "(of_int (F - 1) :: rat) < of_int t" by simp
    then have "F - 1 < t" by (simp only: of_int_less_iff)
    then show ?thesis by simp
  qed
  from upper lower show ?thesis by (simp add: t_def us_def F_def)
qed

lemma fmt_time_to_1e9:
  assumes "0 \<le> sec" "sec \<le> 1000000000"
  shows "fmt_time sec = Inr (fmt_ms (total_ms_of (microseconds sec)))"
  using timedelta_smaller [OF assms timedelta_1e9] by (simp add: fmt_time_Inr)

lemma fmt_ms_layout:
  assumes "0 \<le> t"
  shows "length (fmt_d 2 (t div 60000 mod 60)) = 2 \<and> length (fmt_d 2 (t div 1000 mod 60)) = 2
     \<and> length (fmt_d 3 (t mod 1000)) = 3 \<and> 2 \<le> length (fmt_d 2 (t div 3600000))"
proof -
  have m: "fmt_d 2 (t div 60000 mod 60) = digits_w 2 (t div 60000 mod 60)"
    by (intro fmt_d_fixed) simp_all
  have s: "fmt_d 2 (t div 1000 mod 60) = digits_w 2 (t div 1000 mod 60)"
    by (intro fmt_d_fixed) simp_all
  have ms: "fmt_d 3 (t mod 1000) = digits_w 3 (t mod 1000)"
    by (intro fmt_d_fixed) simp_all
  from assms have "0 \<le> t div 3600000" by simp
  then have "2 \<le> length (fmt_d 2 (t div 3600000))" by (simp add: fmt_d_nonneg)
  then show ?thesis unfolding m s ms by (simp add: length_digits_w)
qed

section \<open>C1: plain mode pairs by position\<close>

text \<open>
  C1. When the output file opens and the times of the paired clips are values that
  \<open>timedelta\<close> accepts, \<open>write_srt\<close> returns normally, whatever the two lengths: it
  writes exactly \<open>min(len(blocks), len(clips))\<close> records, record \<open>i\<close> made of the formatted
  start and end of \<open>clips[i]\<close> and of \<open>blocks[i]\<close>, so that the excess of the longer
  sequence is dropped; it prints the warning with both counts exactly when the lengths
  differ. It raises only when the file does not open or a time is out of range, never
  because of the lengths.
\<close>

theorem C1_plain_pairing:
  "(wfile fs out_path
    \<and> (\<forall>i<min (length blocks) (length clips).
          timedelta_ok (c_start (clips ! i)) \<and> timedelta_ok (c_end (clips ! i)))
    \<longrightarrow> (\<exists>rs. write_srt blocks clips out_path fs =
             Inr \<lparr>printed =
                    (if length blocks \<noteq> length clips
                     then [str ''[warn] blocks='' @ pyint (length blocks) @ str '' clips=''
                             @ pyint (length clips) @ str '' -> truncating to ''
                             @ pyint (min (length blocks) (length clips))]
                     else [])
                    @ [str ''[ok] wrote '' @ pyint (min (length blocks) (length clips))
                         @ str '' entries -> '' @ out_path],
                  written = Some rs\<rparr>
           \<and> length rs = min (length blocks) (length clips)
           \<and> (\<forall>i<min (length blocks) (length clips).
                \<exists>start end'. fmt_time (c_start (clips ! i)) = Inr start
                  \<and> fmt_time (c_end (clips ! i)) = Inr end'
                  \<and> rs ! i = srt_record (i + 1) start end' (blocks ! i))))
   \<and> (write_srt blocks clips out_path fs = Inl err \<longrightarrow>
        \<not> wfile fs out_path
        \<or> (\<exists>i<min (length blocks) (length clips).
              \<not> timedelta_ok (c_start (clips ! i)) \<or> \<not> timedelta_ok (c_end (clips ! i))))"
proof -
  let ?n = "min (length blocks) (length clips)"
  have a: "wfile fs out_path
    \<and> (\<forall>i<?n. timedelta_ok (c_start (clips ! i)) \<and> timedelta_ok (c_end (clips ! i)))
    \<longrightarrow> (\<exists>rs. write_srt blocks clips out_path fs =
             Inr \<lparr>printed =
                    (if length blocks \<noteq> length clips
                     then [str ''[warn] blocks='' @ pyint (length blocks) @ str '' clips=''
                             @ pyint (length clips) @ str '' -> truncating to '' @ pyint ?n]
                     else [])
                    @ [str ''[ok] wrote '' @ pyint ?n @ str '' entries -> '' @ out_path],
                  written = Some rs\<rparr>
           \<and> length rs = ?n
           \<and> (\<forall>i<?n. \<exists>start end'. fmt_time (c_start (clips ! i)) = Inr start
                  \<and> fmt_time (c_end (clips ! i)) = Inr end'
                  \<and> rs ! i = srt_record (i + 1) start end' (blocks ! i)))"
  proof
    assume h: "wfile fs out_path
      \<and> (\<forall>i<?n. timedelta_ok (c_start (clips ! i)) \<and> timedelta_ok (c_end (clips ! i)))"
    obtain res where res: "write_srt blocks clips out_path fs = res" by simp
    show "\<exists>rs. write_srt blocks clips out_path fs =
             Inr \<lparr>printed =
                    (if length blocks \<noteq> length clips
                     then [str ''[warn] blocks='' @ pyint (length blocks) @ str '' clips=''
                             @ pyint (length clips) @ str '' -> truncating to '' @ pyint ?n]
                     else [])
                    @ [str ''[ok] wrote '' @ pyint ?n @ str '' entries -> '' @ out_path],
                  written = Some rs\<rparr>
           \<and> length rs = ?n
           \<and> (\<forall>i<?n. \<exists>start end'. fmt_time (c_start (clips ! i)) = Inr start
                  \<and> fmt_time (c_end (clips ! i)) = Inr end'
                  \<and> rs ! i = srt_record (i + 1) start end' (blocks ! i))"
    proof (cases "write_srt_loop [0..<?n] blocks clips")
      case (Inl e)
      from write_srt_loop_Inl [OF this] h show ?thesis by auto
    next
      case (Inr rs)
      from write_srt_loop_Inr [OF Inr] have
        len: "length rs = ?n" and
        each: "\<forall>k<?n. write_entry (k + 1) (c_start (clips ! k)) (c_end (clips ! k))
                 (blocks ! k) = Inr (rs ! k)"
        by auto
      from h Inr have "write_srt blocks clips out_path fs =
             Inr \<lparr>printed =
                    (if length blocks \<noteq> length clips
                     then [str ''[warn] blocks='' @ pyint (length blocks) @ str '' clips=''
                             @ pyint (length clips) @ str '' -> truncating to '' @ pyint ?n]
                     else [])
                    @ [str ''[ok] wrote '' @ pyint ?n @ str '' entries -> '' @ out_path],
                  written = Some rs\<rparr>"
        by (simp add: write_srt_def Let_def warn_truncating_def ok_wrote_def)
      moreover from each have "\<forall>i<?n. \<exists>start end'. fmt_time (c_start (clips ! i)) = Inr start
                  \<and> fmt_time (c_end (clips ! i)) = Inr end'
                  \<and> rs ! i = srt_record (i + 1) start end' (blocks ! i)"
        unfolding write_entry_Inr by blast
      ultimately show ?thesis using len by blast
    qed
  qed
  have b: "write_srt blocks clips out_path fs = Inl err \<longrightarrow>
        \<not> wfile fs out_path
        \<or> (\<exists>i<?n. \<not> timedelta_ok (c_start (clips ! i)) \<or> \<not> timedelta_ok (c_end (clips ! i)))"
    using write_srt_Inl by blast
  from a b show ?thesis by blast
qed

theorem C1_plain_pairing_witness:
  "wfile demo_fs (str ''out.srt'')
   \<and> (\<exists>rs. write_srt demo_blocks demo_clips (str ''out.srt'') demo_fs =
         Inr \<lparr>printed = [str ''[warn] blocks=5 clips=3 -> truncating to 3'',
                          str ''[ok] wrote 3 entries -> out.srt''],
              written = Some rs\<rparr>
        \<and> length rs = 3
        \<and> rs ! 2 = str ''3\<newline>00:00:05,000 --> 00:00:05,500\<newline>three\<newline>\<newline>'')"
proof -
  have len: "length demo_blocks = 5" "length demo_clips = 3"
    by (simp_all add: demo_blocks_def demo_clips_def)
  have w: "wfile demo_fs (str ''out.srt'')"
    by (simp add: demo_fs_def)
  have ok: "\<forall>i<min (length demo_blocks) (length demo_clips).
      timedelta_ok (c_start (demo_clips ! i)) \<and> timedelta_ok (c_end (demo_clips ! i))"
    using fmt_time_Inr_ok [OF fmt_time_0] fmt_time_Inr_ok [OF fmt_time_2]
      fmt_time_Inr_ok [OF fmt_time_5] fmt_time_Inr_ok [OF fmt_time_5_5]
    by (auto simp: len demo_clips_def less_Suc_eq numeral_3_eq_3)
  from C1_plain_pairing [where fs = demo_fs and out_path = "str ''out.srt''"
      and blocks = demo_blocks and clips = demo_clips and err = OSError] w ok
  obtain rs where
    r: "write_srt demo_blocks demo_clips (str ''out.srt'') demo_fs =
         Inr \<lparr>printed = [str ''[warn] blocks='' @ pyint 5 @ str '' clips='' @ pyint 3
                           @ str '' -> truncating to '' @ pyint 3,
                          str ''[ok] wrote '' @ pyint 3 @ str '' entries -> '' @ str ''out.srt''],
              written = Some rs\<rparr>" and
    l: "length rs = 3" and
    e: "\<forall>i<3. \<exists>start end'. fmt_time (c_start (demo_clips ! i)) = Inr start
          \<and> fmt_time (c_end (demo_clips ! i)) = Inr end'
          \<and> rs ! i = srt_record (i + 1) start end' (demo_blocks ! i)"
    by (auto simp: len)
  from e [rule_format, of 2]
  have "rs ! 2 = srt_record 3 (str ''00:00:05,000'') (str ''00:00:05,500'') (str ''three'')"
    by (auto simp: demo_clips_def demo_blocks_def fmt_time_5 fmt_time_5_5)
  then have "rs ! 2 = str ''3\<newline>00:00:05,000 --> 00:00:05,500\<newline>three\<newline>\<newline>''"
    by (simp add: srt_record_def pyint_small str_def)
  with r l w show ?thesis
    by (simp add: pyint_small str_def)
qed

section \<open>C2: one cursor over the manual blocks\<close>

text \<open>
  C2. In mixed mode the loop keeps one cursor into the manual blocks over the whole pass.
  A styled element with non-empty retrieved text emits its own text (stripped) and leaves
  the cursor where it is; a styled element without text and a plain element each take the
  block at the cursor and advance it when a block is left, and emit the empty text
  otherwise. After the pass there is one entry per element, entry \<open>j\<close> carrying the
  times of element \<open>j\<close> and the text \<open>entry_text\<close> says, and the cursor stands at the
  number of elements that asked for a block, capped by the number of blocks: for
  [styled with text, plain, styled without text] and at least two blocks it is 2.
\<close>

theorem C2_single_cursor:
  "manual_idx (mixed_loop mb items)
     = min (length (filter (\<lambda>it. \<not> takes_own_text it) items)) (length mb)
   \<and> length (entries (mixed_loop mb items)) = length items
   \<and> (\<forall>j<length items. entries (mixed_loop mb items) ! j
         = (m_start (items ! j), m_end (items ! j), entry_text mb items j))
   \<and> (takes_own_text it \<longrightarrow>
         manual_idx (mixed_step mb st it) = manual_idx st
         \<and> entries (mixed_step mb st it)
             = entries st @ [(m_start it, m_end it,
                              strip (case m_api_text it of None \<Rightarrow> [] | Some s \<Rightarrow> s))])
   \<and> (\<not> takes_own_text it \<and> manual_idx st < length mb \<longrightarrow>
         manual_idx (mixed_step mb st it) = manual_idx st + 1
         \<and> entries (mixed_step mb st it)
             = entries st @ [(m_start it, m_end it, strip (mb ! manual_idx st))])
   \<and> (\<not> takes_own_text it \<and> \<not> manual_idx st < length mb \<longrightarrow>
         manual_idx (mixed_step mb st it) = manual_idx st
         \<and> entries (mixed_step mb st it) = entries st @ [(m_start it, m_end it, [])])
   \<and> (takes_own_text a \<and> m_kind b = text_kind \<and> m_kind c = text_plus_kind
        \<and> \<not> truthy (m_api_text c) \<and> 2 \<le> length mb \<longrightarrow>
         manual_idx (mixed_loop mb [a, b, c]) = 2)"
proof -
  note loop = mixed_loop_state [of mb items]
  have own: "takes_own_text it \<longrightarrow>
         manual_idx (mixed_step mb st it) = manual_idx st
         \<and> entries (mixed_step mb st it)
             = entries st @ [(m_start it, m_end it,
                              strip (case m_api_text it of None \<Rightarrow> [] | Some s \<Rightarrow> s))]"
    by (simp add: mixed_step_own)
  have manual: "\<not> takes_own_text it \<and> manual_idx st < length mb \<longrightarrow>
         manual_idx (mixed_step mb st it) = manual_idx st + 1
         \<and> entries (mixed_step mb st it)
             = entries st @ [(m_start it, m_end it, strip (mb ! manual_idx st))]"
    by (simp add: mixed_step_manual)
  have empty: "\<not> takes_own_text it \<and> \<not> manual_idx st < length mb \<longrightarrow>
         manual_idx (mixed_step mb st it) = manual_idx st
         \<and> entries (mixed_step mb st it) = entries st @ [(m_start it, m_end it, [])]"
    by (simp add: mixed_step_empty)
  have three: "takes_own_text a \<and> m_kind b = text_kind \<and> m_kind c = text_plus_kind
        \<and> \<not> truthy (m_api_text c) \<and> 2 \<le> length mb \<longrightarrow>
         manual_idx (mixed_loop mb [a, b, c]) = 2"
    using mixed_loop_state [of mb "[a, b, c]"] by (auto simp: takes_own_text_def)
  from loop own manual empty three show ?thesis by blast
qed

theorem C2_single_cursor_witness:
  "takes_own_text demo_styled \<and> m_kind demo_plain = text_kind
   \<and> m_kind demo_styled_no_text = text_plus_kind
   \<and> \<not> truthy (m_api_text demo_styled_no_text) \<and> 2 \<le> length demo_blocks
   \<and> manual_idx (mixed_loop demo_blocks [demo_styled, demo_plain, demo_styled_no_text]) = 2
   \<and> entries (mixed_loop demo_blocks [demo_styled, demo_plain, demo_styled_no_text])
       = [(0, 2, str ''Hello''), (2, 5, str ''one''), (5, 11 / 2, str ''two'')]"
proof -
  have h: "takes_own_text demo_styled \<and> m_kind demo_plain = text_kind
     \<and> m_kind demo_styled_no_text = text_plus_kind
     \<and> \<not> truthy (m_api_text demo_styled_no_text) \<and> 2 \<le> length demo_blocks"
    by (simp add: takes_own_text_def truthy_def demo_styled_def demo_plain_def
          demo_styled_no_text_def demo_blocks_def str_def)
  have e: "entries (mixed_loop demo_blocks [demo_styled, demo_plain, demo_styled_no_text])
       = [(0, 2, str ''Hello''), (2, 5, str ''one''), (5, 11 / 2, str ''two'')]"
    by (simp add: mixed_loop_def mixed_step_def truthy_def demo_styled_def demo_plain_def
          demo_styled_no_text_def demo_blocks_def str_def strip_def lstrip_def rstrip_def
          isspace_def)
  from C2_single_cursor [where a = demo_styled and b = demo_plain
      and c = demo_styled_no_text and mb = demo_blocks and items = "[]" and it = demo_plain
      and st = "\<lparr>manual_idx = 0, used_manual = 0, entries = []\<rparr>"] h e
  show ?thesis by simp
qed

section \<open>C3: the time formatter and the floor\<close>

text \<open>
  C3, as the spec states it, fails on the code: \<open>timedelta\<close> rounds the seconds to the
  nearest microsecond before \<open>int\<close> truncates, so that 0.9999996 s, whose floor in
  milliseconds is 999, is written "00:00:01,000".
\<close>

theorem C3_counterexample:
  "fmt_time (rd (9999996 / 10000000)) = Inr (str ''00:00:01,000'')
   \<and> \<lfloor>rd (9999996 / 10000000) * 1000\<rfloor> = 999
   \<and> fmt_floor_spec (rd (9999996 / 10000000)) = str ''00:00:00,999''"
  by code_simp

text \<open>
  C3 (amended). For every seconds value from 0 to 10^9 the formatter emits the timecode of
  an integer \<open>total_ms\<close>: the seconds rounded to the nearest microsecond (within
  1/2 + 2^-34 of a microsecond), divided by 1000 and truncated by \<open>int\<close> after two float
  operations, which makes it the floor of that quotient, or one less when the quotient is
  whole. So \<open>total_ms\<close> is within 1 of \<open>floor(seconds * 1000)\<close> and need not be equal to
  it. The timecode is the decomposition of \<open>total_ms\<close> into hours, minutes, seconds and
  milliseconds by integer division and modulo, the fields two, two, two and three digits
  wide, the hours wider when they need it. In particular \<open>format(61.2345)\<close> is
  "00:01:01,234" and \<open>format(0)\<close> is "00:00:00,000".
\<close>

theorem C3_time_formatter:
  "(0 \<le> sec \<and> sec \<le> 1000000000 \<longrightarrow>
      (\<exists>t. fmt_time sec = Inr (fmt_ms t)
         \<and> t = total_ms_of (microseconds sec)
         \<and> \<bar>of_int (microseconds sec) - sec * 1000000\<bar> \<le> 1 / 2 + 1 / 2 ^ 34
         \<and> microseconds sec div 1000 - 1 \<le> t \<and> t \<le> microseconds sec div 1000
         \<and> (microseconds sec mod 1000 \<noteq> 0 \<longrightarrow> t = microseconds sec div 1000)
         \<and> \<lfloor>sec * 1000\<rfloor> - 1 \<le> t \<and> t \<le> \<lfloor>sec * 1000\<rfloor> + 1))
   \<and> (0 \<le> t' \<longrightarrow>
        fmt_ms t' = fmt_d 2 (t' div 3600000) @ str '':'' @ fmt_d 2 (t' div 60000 mod 60)
           @ str '':'' @ fmt_d 2 (t' div 1000 mod 60) @ str '','' @ fmt_d 3 (t' mod 1000)
        \<and> length (fmt_d 2 (t' div 60000 mod 60)) = 2
        \<and> length (fmt_d 2 (t' div 1000 mod 60)) = 2
        \<and> length (fmt_d 3 (t' mod 1000)) = 3
        \<and> 2 \<le> length (fmt_d 2 (t' div 3600000)))
   \<and> fmt_time (rd (612345 / 10000)) = Inr (str ''00:01:01,234'')
   \<and> fmt_time 0 = Inr (str ''00:00:00,000'')"
proof (intro conjI impI)
  assume h: "0 \<le> sec \<and> sec \<le> 1000000000"
  then have a: "0 \<le> sec" and b: "sec \<le> 1000000000" by simp_all
  have us0: "0 \<le> microseconds sec" using a by (rule microseconds_nonneg)
  have us1: "microseconds sec \<le> 1000000000000000" using a b by (rule microseconds_le_1e15)
  let ?t = "total_ms_of (microseconds sec)"
  have A: "fmt_time sec = Inr (fmt_ms ?t)" using a b by (rule fmt_time_to_1e9)
  have B: "\<bar>of_int (microseconds sec) - sec * 1000000\<bar> \<le> 1 / 2 + 1 / 2 ^ 34"
    using a by (rule microseconds_close)
  note D = total_ms_of_div [OF us0 us1]
  from D have D1: "microseconds sec div 1000 - 1 \<le> ?t" by (rule conjunct1)
  from D have D2: "?t \<le> microseconds sec div 1000" by (rule conjunct2 [THEN conjunct1])
  from D have D3: "microseconds sec mod 1000 \<noteq> 0 \<longrightarrow> ?t = microseconds sec div 1000"
    by (rule conjunct2 [THEN conjunct2])
  note N = total_ms_near_floor [OF a b]
  from N have N1: "\<lfloor>sec * 1000\<rfloor> - 1 \<le> ?t" by (rule conjunct1)
  from N have N2: "?t \<le> \<lfloor>sec * 1000\<rfloor> + 1" by (rule conjunct2)
  show "\<exists>t. fmt_time sec = Inr (fmt_ms t)
         \<and> t = total_ms_of (microseconds sec)
         \<and> \<bar>of_int (microseconds sec) - sec * 1000000\<bar> \<le> 1 / 2 + 1 / 2 ^ 34
         \<and> microseconds sec div 1000 - 1 \<le> t \<and> t \<le> microseconds sec div 1000
         \<and> (microseconds sec mod 1000 \<noteq> 0 \<longrightarrow> t = microseconds sec div 1000)
         \<and> \<lfloor>sec * 1000\<rfloor> - 1 \<le> t \<and> t \<le> \<lfloor>sec * 1000\<rfloor> + 1"
    by (rule exI [where x = ?t]) (intro conjI refl A B D1 D2 D3 N1 N2)
next
  assume "0 \<le> t'"
  then show "length (fmt_d 2 (t' div 60000 mod 60)) = 2"
    "length (fmt_d 2 (t' div 1000 mod 60)) = 2"
    "length (fmt_d 3 (t' mod 1000)) = 3"
    "2 \<le> length (fmt_d 2 (t' div 3600000))"
    using fmt_ms_layout [of t'] by simp_all
next
  show "fmt_ms t' = fmt_d 2 (t' div 3600000) @ str '':'' @ fmt_d 2 (t' div 60000 mod 60)
           @ str '':'' @ fmt_d 2 (t' div 1000 mod 60) @ str '','' @ fmt_d 3 (t' mod 1000)"
    by (simp add: fmt_ms_def Let_def)
next
  show "fmt_time (rd (612345 / 10000)) = Inr (str ''00:01:01,234'')" by code_simp
next
  show "fmt_time 0 = Inr (str ''00:00:00,000'')" by (rule fmt_time_0)
qed

theorem C3_time_formatter_witness:
  "0 \<le> rd (612345 / 10000) \<and> rd (612345 / 10000) \<le> 1000000000
   \<and> (0::int) \<le> 61234
   \<and> \<lfloor>rd (612345 / 10000) * 1000\<rfloor> = 61234
   \<and> fmt_ms 61234 = str ''00:01:01,234''
   \<and> (\<exists>t. fmt_time (rd (612345 / 10000)) = Inr (fmt_ms t)
         \<and> \<lfloor>rd (612345 / 10000) * 1000\<rfloor> - 1 \<le> t
         \<and> t \<le> \<lfloor>rd (612345 / 10000) * 1000\<rfloor> + 1)"
proof -
  have r: "0 \<le> rd (612345 / 10000) \<and> rd (612345 / 10000) \<le> 1000000000" by code_simp
  have f: "\<lfloor>rd (612345 / 10000) * 1000\<rfloor> = 61234" by code_simp
  have m: "fmt_ms 61234 = str ''00:01:01,234''" by code_simp
  from C3_time_formatter [where sec = "rd (612345 / 10000)" and t' = 61234]
  have "0 \<le> rd (612345 / 10000) \<and> rd (612345 / 10000) \<le> 1000000000 \<longrightarrow>
      (\<exists>t. fmt_time (rd (612345 / 10000)) = Inr (fmt_ms t)
         \<and> t = total_ms_of (microseconds (rd (612345 / 10000)))
         \<and> \<bar>of_int (microseconds (rd (612345 / 10000))) - rd (612345 / 10000) * 1000000\<bar>
             \<le> 1 / 2 + 1 / 2 ^ 34
         \<and> microseconds (rd (612345 / 10000)) div 1000 - 1 \<le> t
         \<and> t \<le> microseconds (rd (612345 / 10000)) div 1000
         \<and> (microseconds (rd (612345 / 10000)) mod 1000 \<noteq> 0 \<longrightarrow>
              t = microseconds (rd (612345 / 10000)) div 1000)
         \<and> \<lfloor>rd (612345 / 10000) * 1000\<rfloor> - 1 \<le> t
         \<and> t \<le> \<lfloor>rd (612345 / 10000) * 1000\<rfloor> + 1)"
    by (rule conjunct1)
  from this [rule_format, OF r] obtain t where
    "fmt_time (rd (612345 / 10000)) = Inr (fmt_ms t)"
    "\<lfloor>rd (612345 / 10000) * 1000\<rfloor> - 1 \<le> t"
    "t \<le> \<lfloor>rd (612345 / 10000) * 1000\<rfloor> + 1"
    by (elim exE conjE)
  then have e: "\<exists>t. fmt_time (rd (612345 / 10000)) = Inr (fmt_ms t)
         \<and> \<lfloor>rd (612345 / 10000) * 1000\<rfloor> - 1 \<le> t
         \<and> t \<le> \<lfloor>rd (612345 / 10000) * 1000\<rfloor> + 1"
    by (intro exI conjI)
  have z: "(0::int) \<le> 61234" by simp
  from r z f m e show ?thesis by (intro conjI) (rule conjunct1, assumption, rule conjunct2, assumption+)
qed

section \<open>C4: the short-duration rule\<close>

text \<open>
  C4, as the spec states it, fails on the code: lowercased, the name "AAAAAA" has
  one distinct character, not six, so at a duration of 0.5 s the element is ignored.
\<close>

theorem C4_counterexample:
  "should_ignore lower_ascii (str ''AAAAAA'') (1 / 2) True [] = True"
  unfolding should_ignore_def patterns_of_def DEFAULT_IGNORE_NAMES_def str_def
    lower_ascii_def float_0_6_def
  by (simp add: card_set)

text \<open>
  C4 (amended). With the heuristic enabled and no pattern matching the lowercased name,
  an element is ignored if and only if its duration is at most 0.6 s and its lowercased
  name has fewer than 6 distinct characters. At a duration of 0.5 s the names "AAAAA"
  and "AAAAAA" (one distinct character each) are both ignored, and the name "ABCDEF"
  (six distinct characters) is kept.
\<close>

theorem C4_short_duration_rule:
  "(\<not> pattern_hit (patterns_of lower extra) (lower name) \<longrightarrow>
      should_ignore lower name duration True extra =
        (duration \<le> float_0_6 \<and> card (set (lower name)) < 6))
   \<and> should_ignore lower_ascii (str ''AAAAA'') (1 / 2) True [] = True
   \<and> should_ignore lower_ascii (str ''AAAAAA'') (1 / 2) True [] = True
   \<and> should_ignore lower_ascii (str ''ABCDEF'') (1 / 2) True [] = False"
proof -
  have general: "\<not> pattern_hit (patterns_of lower extra) (lower name) \<longrightarrow>
      should_ignore lower name duration True extra =
        (duration \<le> float_0_6 \<and> card (set (lower name)) < 6)"
    by (simp add: should_ignore_def)
  have a5: "should_ignore lower_ascii (str ''AAAAA'') (1 / 2) True [] = True"
    unfolding should_ignore_def patterns_of_def DEFAULT_IGNORE_NAMES_def str_def
      lower_ascii_def float_0_6_def
    by (simp add: card_set)
  have a6: "should_ignore lower_ascii (str ''AAAAAA'') (1 / 2) True [] = True"
    unfolding should_ignore_def patterns_of_def DEFAULT_IGNORE_NAMES_def str_def
      lower_ascii_def float_0_6_def
    by (simp add: card_set)
  have b6: "should_ignore lower_ascii (str ''ABCDEF'') (1 / 2) True [] = False"
    unfolding should_ignore_def patterns_of_def DEFAULT_IGNORE_NAMES_def str_def
      lower_ascii_def float_0_6_def
    by (simp add: card_set)
  from general a5 a6 b6 show ?thesis by blast
qed

theorem C4_short_duration_rule_witness:
  "\<not> pattern_hit (patterns_of lower_ascii []) (lower_ascii (str ''Title 01''))
   \<and> should_ignore lower_ascii (str ''Title 01'') (1 / 2) True [] = False
   \<and> should_ignore lower_ascii (str ''AAAAA'') (1 / 2) True [] = True"
proof -
  have nohit: "\<not> pattern_hit (patterns_of lower_ascii []) (lower_ascii (str ''Title 01''))"
    unfolding patterns_of_def DEFAULT_IGNORE_NAMES_def str_def lower_ascii_def
    by simp
  have count: "\<not> card (set (lower_ascii (str ''Title 01''))) < 6"
    unfolding str_def lower_ascii_def card_set by simp
  from C4_short_duration_rule [of lower_ascii "[]" "str ''Title 01''" "1 / 2"] nohit count
  show ?thesis by simp
qed

section \<open>C5: how parse_manual fails\<close>

text \<open>
  C5, as the spec states it, fails on the code: a file that opens but is not valid UTF-8
  (here ">" followed by a character in Shift-JIS) makes the strict decoder raise
  \<open>UnicodeDecodeError\<close>, which is no I/O failure.
\<close>

theorem C5_counterexample:
  "rfile demo_fs (str ''sjis.txt'') = Some [CHR 0x3E, CHR 0x82, CHR 0xA0]
   \<and> parse_manual (Some (str ''sjis.txt'')) demo_fs = Inl UnicodeDecodeError"
  by (simp add: parse_manual_def demo_fs_def str_def)

text \<open>
  C5 (amended). \<open>parse_manual\<close> fails in two ways only: the file does not open
  (\<open>OSError\<close>, such as a file that is not found), or its content is not valid UTF-8
  (\<open>UnicodeDecodeError\<close>); a file that opens and decodes always yields a block
  sequence. An empty or missing path yields the empty sequence and no error.
\<close>

theorem C5_parse_manual_failures:
  "(parse_manual path fs = Inl e \<longrightarrow>
      (\<exists>p. path = Some p \<and> p \<noteq> []
         \<and> (rfile fs p = None \<and> e = OSError
            \<or> (\<exists>bytes. rfile fs p = Some bytes \<and> utf8_decode (map of_char bytes) = None
                 \<and> e = UnicodeDecodeError))))
   \<and> (rfile fs p = Some bytes \<and> utf8_decode (map of_char bytes) = Some decoded \<longrightarrow>
        parse_manual (Some p) fs
          = Inr (if p = [] then [] else parse_lines (readlines [] (universal_newlines decoded))))
   \<and> parse_manual None fs = Inr []
   \<and> parse_manual (Some []) fs = Inr []"
  by (auto simp: parse_manual_def split: option.splits if_splits)

theorem C5_parse_manual_failures_witness:
  "parse_manual (Some (str ''missing.txt'')) demo_fs = Inl OSError
   \<and> rfile demo_fs (str ''missing.txt'') = None
   \<and> rfile demo_fs (str ''blank.txt'') = Some ''>   \<newline>''
   \<and> utf8_decode (map of_char ''>   \<newline>'') = Some (str ''>   \<newline>'')
   \<and> parse_manual (Some (str ''blank.txt'')) demo_fs = Inr []
   \<and> parse_manual None demo_fs = Inr []"
proof -
  have m: "parse_manual (Some (str ''missing.txt'')) demo_fs = Inl OSError"
    by (simp add: parse_manual_def demo_fs_def str_def)
  have r: "rfile demo_fs (str ''blank.txt'') = Some ''>   \<newline>''
     \<and> utf8_decode (map of_char ''>   \<newline>'') = Some (str ''>   \<newline>'')"
    by (simp add: demo_fs_def str_def)
  have v: "parse_lines (readlines [] (universal_newlines (str ''>   \<newline>''))) = []"
    by (simp add: str_def parse_lines_def parse_step_def
          rstrip_nl_def startswith_gt_def strip_def lstrip_def rstrip_def isspace_def)
  from C5_parse_manual_failures [where path = "Some (str ''missing.txt'')" and fs = demo_fs
      and e = OSError and p = "str ''blank.txt''" and bytes = "''>   \<newline>''"
      and decoded = "str ''>   \<newline>''"] m r v
  show ?thesis by (auto simp: str_def)
qed

section \<open>C6: name patterns and the caller's flag\<close>




section \<open>C7: the manual block parser\<close>

text \<open>
  C7. \<open>parse_manual\<close> computes what the specification describes (\<open>blocks_spec\<close>): the
  lines before the first delimiter line are discarded, so that putting lines without a
  delimiter in front of a file changes nothing; each block is the section's lines joined
  with their newlines and stripped as a whole, and every block returned is non-empty and
  has no whitespace at either end. The file of the four lines
  "stray", ">First", "line2", ">Second" yields the two blocks "First" + newline + "line2"
  and "Second", and the file of the one line ">   " yields no block.
\<close>

theorem C7_manual_block_parser:
  "parse_lines raws = blocks_spec raws
   \<and> ((\<forall>raw\<in>set pre. \<not> is_delimiter raw) \<longrightarrow> parse_lines (pre @ raws) = parse_lines raws)
   \<and> (\<forall>b\<in>set (parse_lines raws). b \<noteq> [] \<and> strip b = b)
   \<and> parse_manual (Some (str ''manual.txt'')) demo_fs
       = Inr [str ''First\<newline>line2'', str ''Second'']
   \<and> parse_manual (Some (str ''blank.txt'')) demo_fs = Inr []"
proof -
  have a: "parse_lines raws = blocks_spec raws"
    by (rule parse_lines_spec)
  have b: "(\<forall>raw\<in>set pre. \<not> is_delimiter raw) \<longrightarrow>
      parse_lines (pre @ raws) = parse_lines raws"
    by (simp add: parse_lines_spec blocks_spec_def split_sections_stray)
  have c: "\<forall>b\<in>set (parse_lines raws). b \<noteq> [] \<and> strip b = b"
    by (auto simp: parse_lines_spec blocks_spec_def block_text_stripped)
  have d: "parse_manual (Some (str ''manual.txt'')) demo_fs
       = Inr [str ''First\<newline>line2'', str ''Second'']"
    by (simp add: parse_manual_def demo_fs_def str_def parse_lines_def parse_step_def
          rstrip_nl_def startswith_gt_def strip_def lstrip_def rstrip_def isspace_def)
  have e: "parse_manual (Some (str ''blank.txt'')) demo_fs = Inr []"
    by (simp add: parse_manual_def demo_fs_def str_def parse_lines_def parse_step_def
          rstrip_nl_def startswith_gt_def strip_def lstrip_def rstrip_def isspace_def)
  from a b c d e show ?thesis by blast
qed

theorem C7_manual_block_parser_witness:
  "\<not> is_delimiter (str ''stray\<newline>'')
   \<and> parse_lines ([str ''stray\<newline>''] @ [str ''>First\<newline>'', str ''line2''])
       = parse_lines [str ''>First\<newline>'', str ''line2'']
   \<and> parse_lines [str ''>First\<newline>'', str ''line2''] = [str ''First\<newline>line2'']
   \<and> strip (str ''First\<newline>line2'') = str ''First\<newline>line2''"
proof -
  have h: "\<forall>raw\<in>set [str ''stray\<newline>'']. \<not> is_delimiter raw"
    by (simp add: is_delimiter_def startswith_gt_def rstrip_nl_def str_def)
  have v: "parse_lines [str ''>First\<newline>'', str ''line2''] = [str ''First\<newline>line2'']"
    by (simp add: str_def parse_lines_def parse_step_def
          rstrip_nl_def startswith_gt_def strip_def lstrip_def rstrip_def isspace_def)
  from C7_manual_block_parser [where pre = "[str ''stray\<newline>'']"
      and raws = "[str ''>First\<newline>'', str ''line2'']"] h v
  show ?thesis by simp
qed

section \<open>C8: the filter keeps the order\<close>

text \<open>
  C8. The kept list of \<open>collect_clips\<close> and of \<open>collect_clips_with_ignored\<close> is a
  subsequence of the raw element sequence of the track, in its order: filtering removes
  elements and never reorders them. Both functions return a list whenever the frame rate
  is not zero, and the empty list when no timeline is open.
\<close>

theorem C8_filter_is_order_stable:
  "(collect_clips lower (Some t) name ex ig extra = Inr ks \<longrightarrow>
      subseq (map c_item ks) (raw_items t name))
   \<and> (collect_clips_with_ignored lower (Some t) name ex ig extra = Inr r \<longrightarrow>
      subseq (map c_item (kept r)) (raw_items t name))
   \<and> (timelineFrameRate t \<noteq> 0 \<longrightarrow>
      (\<exists>ks. collect_clips lower (Some t) name ex ig extra = Inr ks)
      \<and> (\<exists>r. collect_clips_with_ignored lower (Some t) name ex ig extra = Inr r))
   \<and> collect_clips lower None name ex ig extra = Inr []
   \<and> collect_clips_with_ignored lower None name ex ig extra = Inr \<lparr>kept = [], ignored = []\<rparr>"
proof -
  have a: "collect_clips lower (Some t) name ex ig extra = Inr ks \<longrightarrow>
      subseq (map c_item ks) (raw_items t name)"
  proof
    assume "collect_clips lower (Some t) name ex ig extra = Inr ks"
    then have "map c_item ks = filter
        (keeps lower (timelineFrameRate t) ex ig (case extra of None \<Rightarrow> [] | Some e \<Rightarrow> e))
        (raw_items t name)"
      unfolding collect_clips_def raw_items_def by (simp add: collect_tracks_filter)
    then show "subseq (map c_item ks) (raw_items t name)" by simp
  qed
  have b: "collect_clips_with_ignored lower (Some t) name ex ig extra = Inr r \<longrightarrow>
      subseq (map c_item (kept r)) (raw_items t name)"
  proof
    assume "collect_clips_with_ignored lower (Some t) name ex ig extra = Inr r"
    then have "map c_item (kept r) = filter
        (keeps lower (timelineFrameRate t) ex ig (case extra of None \<Rightarrow> [] | Some e \<Rightarrow> e))
        (raw_items t name)"
      unfolding collect_clips_with_ignored_def raw_items_def
      by (simp add: collect_tracks_wi_filter)
    then show "subseq (map c_item (kept r)) (raw_items t name)" by simp
  qed
  have c: "timelineFrameRate t \<noteq> 0 \<longrightarrow>
      (\<exists>ks. collect_clips lower (Some t) name ex ig extra = Inr ks)
      \<and> (\<exists>r. collect_clips_with_ignored lower (Some t) name ex ig extra = Inr r)"
    unfolding collect_clips_def collect_clips_with_ignored_def
    by (simp add: collect_tracks_total collect_tracks_wi_total)
  have d: "collect_clips lower None name ex ig extra = Inr []"
    by (simp add: collect_clips_def)
  have e: "collect_clips_with_ignored lower None name ex ig extra
      = Inr \<lparr>kept = [], ignored = []\<rparr>"
    by (simp add: collect_clips_with_ignored_def)
  from a b c d e show ?thesis by blast
qed

theorem C8_filter_is_order_stable_witness:
  "timelineFrameRate demo_timeline \<noteq> 0
   \<and> collect_clips lower_ascii (Some demo_timeline) (str ''Subs'') True True None
       = Inr [\<lparr>c_item = demo_title, c_start = 0, c_end = 2, c_name = str ''Title''\<rparr>]
   \<and> raw_items demo_timeline (str ''Subs'') = [demo_title, demo_dissolve]
   \<and> subseq [demo_title] (raw_items demo_timeline (str ''Subs''))
   \<and> (\<exists>r. collect_clips_with_ignored lower_ascii (Some demo_timeline) (str ''Subs'') True True
            None = Inr r
          \<and> subseq (map c_item (kept r)) (raw_items demo_timeline (str ''Subs'')))"
proof -
  have t1: "times_of 24 demo_title = Inr (0, 2, 2)" by code_simp
  have t2: "times_of 24 demo_dissolve = Inr (2, 5 / 2, 1 / 2)" by code_simp
  have fps: "timelineFrameRate demo_timeline \<noteq> 0"
    by (simp add: demo_timeline_def)
  have raw: "raw_items demo_timeline (str ''Subs'') = [demo_title, demo_dissolve]"
    by (simp add: raw_items_def demo_timeline_def items_or_empty_def)
  have c: "collect_clips lower_ascii (Some demo_timeline) (str ''Subs'') True True None
     = Inr [\<lparr>c_item = demo_title, c_start = 0, c_end = 2, c_name = str ''Title''\<rparr>]"
    by (simp add: collect_clips_def demo_timeline_def items_or_empty_def has_fusion_comp_def
          fusion_comp_of_def t1 t2 name_of_def should_ignore_def patterns_of_def
          DEFAULT_IGNORE_NAMES_def str_def lower_ascii_def float_0_6_def card_set,
        simp add: demo_title_def demo_dissolve_def str_def)
  note c8 = C8_filter_is_order_stable [where lower = lower_ascii and t = demo_timeline
      and name = "str ''Subs''" and ex = True and ig = True and extra = None]
  from c8 [where ks = "[\<lparr>c_item = demo_title, c_start = 0, c_end = 2, c_name = str ''Title''\<rparr>]"
      and r = undefined] c
  have s1: "subseq [demo_title] (raw_items demo_timeline (str ''Subs''))" by simp
  from c8 [where ks = "[]" and r = undefined] fps obtain r where
    r: "collect_clips_with_ignored lower_ascii (Some demo_timeline) (str ''Subs'') True True
            None = Inr r"
    by blast
  from c8 [where ks = "[]" and r = r] r
  have "subseq (map c_item (kept r)) (raw_items demo_timeline (str ''Subs''))" by blast
  with fps c raw s1 r show ?thesis by blast
qed

section \<open>C9: the time formatter is monotone\<close>

text \<open>
  C9. For seconds values \<open>0 \<le> a < b\<close> whose timecodes have the same length (the same
  width of the hour field), the timecode of \<open>a\<close> is at most that of \<open>b\<close> in the
  lexicographic order of strings. The formatter accepts \<open>a\<close> whenever it accepts
  \<open>b\<close>, and below 100 hours both timecodes have 12 characters, so that the order always
  holds there.
\<close>

theorem C9_formatter_monotone:
  "(0 \<le> a \<and> a < b \<and> fmt_time a = Inr sa \<and> fmt_time b = Inr sb \<and> length sa = length sb
      \<longrightarrow> sa \<le> sb)
   \<and> (0 \<le> a \<and> a < b \<and> fmt_time b = Inr sb \<longrightarrow> (\<exists>s. fmt_time a = Inr s))
   \<and> (0 \<le> a \<and> a < b \<and> b \<le> 359999 \<longrightarrow>
        (\<exists>s s'. fmt_time a = Inr s \<and> fmt_time b = Inr s' \<and> length s = 12 \<and> length s' = 12
           \<and> s \<le> s'))"
proof (intro conjI impI)
  assume "0 \<le> a \<and> a < b \<and> fmt_time a = Inr sa \<and> fmt_time b = Inr sb
    \<and> length sa = length sb"
  then show "sa \<le> sb" using fmt_time_mono [of a b sa sb] by blast
next
  assume "0 \<le> a \<and> a < b \<and> fmt_time b = Inr sb"
  then show "\<exists>s. fmt_time a = Inr s" using fmt_time_smaller [of a b sb] by blast
next
  assume "0 \<le> a \<and> a < b \<and> b \<le> 359999"
  then show "\<exists>s s'. fmt_time a = Inr s \<and> fmt_time b = Inr s' \<and> length s = 12
      \<and> length s' = 12 \<and> s \<le> s'"
    using fmt_time_mono_below_100h [of a b] by blast
qed

theorem C9_formatter_monotone_witness:
  "(0::rat) \<le> 1 \<and> (1::rat) < 2 \<and> (2::rat) \<le> 359999
   \<and> fmt_time 1 = Inr (str ''00:00:01,000'') \<and> fmt_time 2 = Inr (str ''00:00:02,000'')
   \<and> length (str ''00:00:01,000'') = length (str ''00:00:02,000'')
   \<and> str ''00:00:01,000'' \<le> str ''00:00:02,000''"
proof -
  have a: "fmt_time 1 = Inr (str ''00:00:01,000'')" by code_simp
  have b: "fmt_time 2 = Inr (str ''00:00:02,000'')" by code_simp
  have l: "length (str ''00:00:01,000'') = length (str ''00:00:02,000'')"
    by (simp add: str_def)
  have o: "(0::rat) \<le> 1 \<and> (1::rat) < 2 \<and> (2::rat) \<le> 359999" by simp
  from C9_formatter_monotone [where a = 1 and b = 2 and sa = "str ''00:00:01,000''"
      and sb = "str ''00:00:02,000''"] a b l o
  have "str ''00:00:01,000'' \<le> str ''00:00:02,000''" by blast
  with a b l o show ?thesis by blast
qed

section \<open>C10: a styled text of whitespace only\<close>



end
